theory Spec2Isabelle
  imports Main "HOL-Library.Word"
begin

section \<open>Program representation\<close>

text \<open>
  The passes work on the LLVM program representation. The part of it they touch is
  embedded here: a module is a list of functions, a function a list of basic blocks, a
  block a list of instructions. Only load instructions are referred to by other
  instructions in these passes, so a load carries an identifier and a value of the form
  \<open>LoadRes l\<close> denotes the result of the load \<open>l\<close>.
\<close>

datatype val =
    IntToPtrConst nat
  | IntToPtrExpr
  | OtherConstExpr
  | LoadRes nat
  | GlobalVar string
  | OtherVal nat

text \<open>
  \<open>IntToPtrConst c\<close> is a constant expression with opcode IntToPtr whose first
  operand is a ConstantInt of (zero-extended) value \<open>c\<close>; \<open>IntToPtrExpr\<close> is an
  IntToPtr constant expression over anything else.
\<close>

datatype callee = Fn string | Cast string | Indirect

text \<open>
  The called value of a call: \<open>Fn n\<close> is the function named \<open>n\<close> itself, so that
  \<open>getCalledFunction\<close> gives that function; \<open>Cast n\<close> is a constant cast of the
  function named \<open>n\<close> to another pointer type, and \<open>Indirect\<close> any other value: for
  both \<open>getCalledFunction\<close> is null.
\<close>

datatype instr =
    Load nat val
  | Store val val
  | Call callee
  | RetVoid
  | Other

text \<open>\<open>Load l p\<close> reads through pointer operand \<open>p\<close>; \<open>Store v p\<close> writes value
  operand \<open>v\<close> through pointer operand \<open>p\<close>.\<close>

record RelocationInfo =
  Address :: "64 word"
  Name :: string
  Addend :: "64 word"

type_synonym tag = "string \<times> 64 word"

type_synonym metadata = "(nat \<times> tag) list"

datatype prototype = VoidFn bool | OtherFn

text \<open>
  \<open>VoidFn isVarArg\<close> is the function type \<open>FunctionType::get(void, isVarArg)\<close>: result
  void, no fixed parameter. \<open>OtherFn\<close> stands for every other function type.
\<close>

record func =
  fname :: string
  ftype :: prototype
  blocks :: "instr list list"

record module =
  functionList :: "func list"
  relocMD :: metadata
  linkerOptions :: "string list"

text \<open>
  A function without blocks is a declaration.

  \<open>relocMD\<close> is the metadata of kind \<open>revamb.relocation\<close>, kept by the identifier of
  the load it is attached to. A node of that kind is always the pair the passes write: a
  string and a 64-bit integer.
\<close>

definition getMetadata :: "metadata \<Rightarrow> nat \<Rightarrow> tag option" where
  "getMetadata md l = map_of md l"

fun setMetadata :: "nat \<Rightarrow> tag \<Rightarrow> metadata \<Rightarrow> metadata" where
  "setMetadata l t [] = [(l, t)]"
| "setMetadata l t ((k, u) # md) =
     (if k = l then (l, t) # md else (k, u) # setMetadata l t md)"

definition isDeclaration :: "func \<Rightarrow> bool" where
  "isDeclaration f = (blocks f = [])"

text \<open>
  \<open>Module::getOrInsertFunction\<close> looks the name up in the module. With no function of
  that name it appends a new declaration of the function type asked for to the module's
  function list and hands it back. A function found with that type is handed back
  itself; a function found with another type is handed back as a constant cast to the
  type asked for. An empty name is no key of the symbol table, so it always makes a new
  function. The result is the function list, the index of the function in it, and
  whether the value handed back is the function itself (and not a cast of it).
\<close>

fun lookupFn :: "string \<Rightarrow> func list \<Rightarrow> nat option" where
  "lookupFn n [] = None"
| "lookupFn n (f # fs) =
     (if fname f = n then Some 0 else map_option Suc (lookupFn n fs))"

definition getFunction :: "func list \<Rightarrow> string \<Rightarrow> nat option" where
  "getFunction fs n = (if n = [] then None else lookupFn n fs)"

definition getOrInsertFunction ::
  "string \<Rightarrow> prototype \<Rightarrow> func list \<Rightarrow> func list \<times> nat \<times> bool" where
  "getOrInsertFunction n ty fs =
     (case getFunction fs n of
        Some j \<Rightarrow> (fs, j, ftype (fs ! j) = ty)
      | None \<Rightarrow> (fs @ [\<lparr>fname = n, ftype = ty, blocks = []\<rparr>], length fs, True))"

text \<open>The called value of a call built on what \<open>getOrInsertFunction\<close> handed back for
  the name.\<close>

definition calledValue :: "string \<Rightarrow> bool \<Rightarrow> callee" where
  "calledValue n isFunc = (if isFunc then Fn n else Cast n)"

section \<open>LocateRelocationAccessesPass\<close>

definition equalsInt :: "nat \<Rightarrow> 64 word \<Rightarrow> bool" where
  "equalsInt c a = (c = unat a)"

text \<open>The loop of \<open>handleLoad\<close> over the relocation table, for a load \<open>l\<close> whose
  address is the constant \<open>c\<close>.\<close>

fun locateScan :: "RelocationInfo list \<Rightarrow> nat \<Rightarrow> nat \<Rightarrow> metadata \<Rightarrow> metadata \<times> bool" where
  "locateScan [] c l md = (md, False)"
| "locateScan (r # rs) c l md =
     (if equalsInt c (Address r) then
        (if getMetadata md l = None then (setMetadata l (Name r, Addend r) md, True)
         else locateScan rs c l md)
      else locateScan rs c l md)"

definition locateHandleLoad :: "RelocationInfo list \<Rightarrow> nat \<Rightarrow> val \<Rightarrow> metadata \<Rightarrow> metadata \<times> bool" where
  "locateHandleLoad relocs l p md =
     (case p of IntToPtrConst c \<Rightarrow> locateScan relocs c l md | _ \<Rightarrow> (md, False))"

text \<open>The body of the loop of \<open>runOnBasicBlock\<close>, and the loop.\<close>

definition locateInst :: "RelocationInfo list \<Rightarrow> instr \<Rightarrow> metadata \<Rightarrow> metadata \<times> bool" where
  "locateInst relocs i md =
     (case i of Load l p \<Rightarrow> locateHandleLoad relocs l p md | _ \<Rightarrow> (md, False))"

fun locateInsts :: "RelocationInfo list \<Rightarrow> instr list \<Rightarrow> metadata \<times> bool \<Rightarrow> metadata \<times> bool" where
  "locateInsts relocs [] s = s"
| "locateInsts relocs (i # is) (md, res) =
     (case locateInst relocs i md of
        (md', c) \<Rightarrow> locateInsts relocs is (md', res \<or> c))"

definition blockAt :: "module \<Rightarrow> nat \<Rightarrow> nat \<Rightarrow> instr list" where
  "blockAt M fi bi = blocks (functionList M ! fi) ! bi"

definition validBlock :: "module \<Rightarrow> nat \<Rightarrow> nat \<Rightarrow> bool" where
  "validBlock M fi bi = (fi < length (functionList M) \<and> bi < length (blocks (functionList M ! fi)))"

text \<open>\<open>LocateRelocationAccessesPass::runOnBasicBlock\<close> on block \<open>bi\<close> of function
  \<open>fi\<close>.\<close>

definition locateRunOnBasicBlock :: "RelocationInfo list \<Rightarrow> module \<Rightarrow> nat \<Rightarrow> nat \<Rightarrow> module \<times> bool" where
  "locateRunOnBasicBlock relocs M fi bi =
     (case locateInsts relocs (blockAt M fi bi) (relocMD M, False) of
        (md', res) \<Rightarrow> (M\<lparr>relocMD := md'\<rparr>, res))"

section \<open>AddRelocationCallsPass\<close>

datatype error = NullCast | NoInsertionPoint

text \<open>
  \<open>NullCast\<close>: \<open>dyn_cast\<close> applied to a null pointer (LLVM's \<open>isa\<close> asserts that its
  argument is not null). \<open>NoInsertionPoint\<close>: the \<open>assert(NextNode != nullptr)\<close> of
  \<open>buildCall\<close>.
\<close>

definition getRelocName :: "metadata \<Rightarrow> nat \<Rightarrow> bool \<Rightarrow> string" where
  "getRelocName md l needsZeroAddend =
     (case getMetadata md l of
        Some (RelocName, RelocAddend) \<Rightarrow>
          (if \<not> needsZeroAddend \<or> RelocAddend = 0 then RelocName else [])
      | None \<Rightarrow> [])"

text \<open>In the next two functions \<open>rest\<close> is what follows the store in its block, so
  that \<open>getNextNode\<close> is its head, and null when it is empty.\<close>

definition succeededByCall :: "instr list \<Rightarrow> string \<Rightarrow> error + bool" where
  "succeededByCall rest Function =
     (case rest of
        [] \<Rightarrow> Inl NullCast
      | Call (Fn F) # _ \<Rightarrow> Inr (Function = F)
      | _ # _ \<Rightarrow> Inr False)"

definition createEntry :: "func list \<Rightarrow> nat \<Rightarrow> func list" where
  "createEntry fs j =
     (if isDeclaration (fs ! j) then fs[j := (fs ! j)\<lparr>blocks := [[RetVoid]]\<rparr>] else fs)"

text \<open>
  \<open>buildCall\<close> gives the function list back with the call instruction that now
  stands right after the store. The entry block is created under \<open>Func &&
  Func->isDeclaration()\<close>, where \<open>Func\<close> is null when a cast was handed back.
\<close>

definition buildCall :: "func list \<Rightarrow> instr list \<Rightarrow> string \<Rightarrow> error + (func list \<times> instr)" where
  "buildCall fs rest name =
     (case getOrInsertFunction name (VoidFn False) fs of
        (fs1, j, isFunc) \<Rightarrow>
          (let fs2 = (if isFunc then createEntry fs1 j else fs1) in
           case rest of
             [] \<Rightarrow> Inl NoInsertionPoint
           | _ # _ \<Rightarrow> Inr (fs2, Call (calledValue name isFunc))))"

text \<open>\<open>visitStoreInst\<close> on \<open>Store v p\<close>: the state is the function list and
  \<open>MadeChange\<close>; the first component of the result is what was inserted after the
  store.\<close>

definition visitStoreInst ::
  "(val \<Rightarrow> bool) \<Rightarrow> metadata \<Rightarrow> val \<Rightarrow> val \<Rightarrow> instr list \<Rightarrow> func list \<times> bool
     \<Rightarrow> error + (instr list \<times> func list \<times> bool)" where
  "visitStoreInst isPCReg md v p rest s =
     (case s of (fs, MadeChange) \<Rightarrow>
      (if \<not> isPCReg p then Inr ([], fs, MadeChange)
       else
         (case v of
            LoadRes l \<Rightarrow>
              (let RelocName = getRelocName md l True in
               if RelocName \<noteq> [] then
                 (let name = ''dl.'' @ RelocName in
                  case succeededByCall rest name of
                    Inl e \<Rightarrow> Inl e
                  | Inr True \<Rightarrow> Inr ([], fs, MadeChange)
                  | Inr False \<Rightarrow>
                      (case buildCall fs rest name of
                         Inl e \<Rightarrow> Inl e
                       | Inr (fs', c) \<Rightarrow> Inr ([c], fs', True)))
               else Inr ([], fs, MadeChange))
          | _ \<Rightarrow> Inr ([], fs, MadeChange))))"

text \<open>
  The visitor walks the instructions a block had when the walk reached it: the iterator
  is advanced before an instruction is visited, and the one call a visit may insert
  goes in front of the iterator's new position.
\<close>

definition visitInst ::
  "(val \<Rightarrow> bool) \<Rightarrow> metadata \<Rightarrow> instr \<Rightarrow> instr list \<Rightarrow> func list \<times> bool
     \<Rightarrow> error + (instr list \<times> func list \<times> bool)" where
  "visitInst isPCReg md i rest s =
     (case i of Store v p \<Rightarrow> visitStoreInst isPCReg md v p rest s | _ \<Rightarrow> Inr ([], s))"

fun visitInsts ::
  "(val \<Rightarrow> bool) \<Rightarrow> metadata \<Rightarrow> instr list \<Rightarrow> func list \<times> bool
     \<Rightarrow> error + (instr list \<times> func list \<times> bool)" where
  "visitInsts isPCReg md [] s = Inr ([], s)"
| "visitInsts isPCReg md (i # rest) s =
     (case visitInst isPCReg md i rest s of
        Inl e \<Rightarrow> Inl e
      | Inr (ins, s1) \<Rightarrow>
          (case visitInsts isPCReg md rest s1 of
             Inl e \<Rightarrow> Inl e
           | Inr (rest', s2) \<Rightarrow> Inr (i # ins @ rest', s2)))"

fun visitBlocks ::
  "(val \<Rightarrow> bool) \<Rightarrow> metadata \<Rightarrow> instr list list \<Rightarrow> func list \<times> bool
     \<Rightarrow> error + (instr list list \<times> func list \<times> bool)" where
  "visitBlocks isPCReg md [] s = Inr ([], s)"
| "visitBlocks isPCReg md (b # bs) s =
     (case visitInsts isPCReg md b s of
        Inl e \<Rightarrow> Inl e
      | Inr (b', s1) \<Rightarrow>
          (case visitBlocks isPCReg md bs s1 of
             Inl e \<Rightarrow> Inl e
           | Inr (bs', s2) \<Rightarrow> Inr (b' # bs', s2)))"

text \<open>Visiting function \<open>fi\<close> of the list: its blocks are walked, and are those of
  the function afterwards. (The walk changes other functions of the list only, see
  \<open>visitBlocks_own\<close> below.)\<close>

definition visitFunction ::
  "(val \<Rightarrow> bool) \<Rightarrow> metadata \<Rightarrow> func list \<Rightarrow> nat \<Rightarrow> bool \<Rightarrow> error + (func list \<times> bool)" where
  "visitFunction isPCReg md fs fi MadeChange =
     (case visitBlocks isPCReg md (blocks (fs ! fi)) (fs, MadeChange) of
        Inl e \<Rightarrow> Inl e
      | Inr (bs', fs', ch) \<Rightarrow> Inr (fs'[fi := (fs' ! fi)\<lparr>blocks := bs'\<rparr>], ch))"

definition isStore :: "instr \<Rightarrow> bool" where
  "isStore i = (case i of Store _ _ \<Rightarrow> True | _ \<Rightarrow> False)"

definition nstores :: "func \<Rightarrow> nat" where
  "nstores f = length (filter isStore (concat (blocks f)))"

text \<open>
  The walk over the function list is a loop over a list that grows while it is walked
  (a new stub is appended to it). It ends because a stub holds no store: \<open>grows k fs fs'\<close>
  says that \<open>fs'\<close> is \<open>fs\<close> with at most \<open>k\<close> functions appended, the number of stores
  of each function kept and the appended ones holding none.
\<close>

definition grows :: "nat \<Rightarrow> func list \<Rightarrow> func list \<Rightarrow> bool" where
  "grows k fs fs' =
     (length fs \<le> length fs' \<and> length fs' \<le> length fs + k \<and>
      map nstores fs' = map nstores fs @ replicate (length fs' - length fs) 0)"

lemma grows_refl: "grows 0 fs fs"
  by (simp add: grows_def)

lemma grows_trans: "grows k fs fs1 \<Longrightarrow> grows m fs1 fs2 \<Longrightarrow> grows (k + m) fs fs2"
  unfolding grows_def
  apply (intro conjI)
    apply simp
   apply simp
  apply (simp add: replicate_add [symmetric])
  done

lemma grows_mono: "grows k fs fs' \<Longrightarrow> k \<le> m \<Longrightarrow> grows m fs fs'"
  by (simp add: grows_def)

lemma lookupFn_less: "lookupFn n fs = Some j \<Longrightarrow> j < length fs"
  by (induction fs arbitrary: j) (auto split: if_splits)

lemma nstores_decl: "nstores \<lparr>fname = n, ftype = ty, blocks = []\<rparr> = 0"
  by (simp add: nstores_def)

lemma getOrInsertFunction_grows:
  "getOrInsertFunction n ty fs = (fs1, j, isFunc) \<Longrightarrow> grows 1 fs fs1 \<and> j < length fs1"
  by (auto simp: getOrInsertFunction_def getFunction_def grows_def nstores_decl
      split: option.splits if_splits dest: lookupFn_less)

lemma createEntry_grows: "j < length fs \<Longrightarrow> grows 0 fs (createEntry fs j)"
  by (auto simp: createEntry_def grows_def isDeclaration_def nstores_def isStore_def map_update
      intro!: nth_equalityI simp: nth_list_update)

lemma buildCall_grows:
  assumes "buildCall fs rest n = Inr (fs', c)"
  shows "grows 1 fs fs'"
proof -
  obtain fs1 j isFunc where g: "getOrInsertFunction n (VoidFn False) fs = (fs1, j, isFunc)"
    by (metis surj_pair)
  from getOrInsertFunction_grows [OF g] have a: "grows 1 fs fs1" and j: "j < length fs1"
    by simp_all
  from assms g have f: "fs' = (if isFunc then createEntry fs1 j else fs1)"
    by (auto simp: buildCall_def Let_def split: list.splits)
  show ?thesis
  proof (cases isFunc)
    case True
    with f grows_trans [OF a createEntry_grows [OF j]] show ?thesis by simp
  next
    case False
    with f a show ?thesis by simp
  qed
qed


lemma visitStoreInst_grows:
  "visitStoreInst pc md v p rest (fs, ch) = Inr (ins, fs', ch') \<Longrightarrow> grows 1 fs fs'"
  by (auto simp: visitStoreInst_def Let_def grows_refl [THEN grows_mono]
      split: if_splits val.splits sum.splits bool.splits prod.splits dest: buildCall_grows)

lemma visitStoreInst_inserts:
  "visitStoreInst pc md v p rest s = Inr (ins, s') \<Longrightarrow> filter isStore ins = []"
  by (auto simp: visitStoreInst_def Let_def buildCall_def isStore_def
      split: if_splits val.splits sum.splits bool.splits prod.splits list.splits)

lemma visitInst_grows:
  assumes "visitInst pc md i rest (fs, ch) = Inr (ins, fs', ch')"
  shows "grows (length (filter isStore [i])) fs fs' \<and> filter isStore ins = []"
proof (cases i)
  case (Store v p)
  with assms have a: "visitStoreInst pc md v p rest (fs, ch) = Inr (ins, fs', ch')"
    by (simp add: visitInst_def)
  from visitStoreInst_grows [OF a] visitStoreInst_inserts [OF a] Store show ?thesis
    by (simp add: isStore_def)
qed (use assms in \<open>auto simp: visitInst_def isStore_def grows_refl\<close>)

lemma visitInsts_grows:
  "visitInsts pc md is (fs, ch) = Inr (is', fs', ch') \<Longrightarrow>
     grows (length (filter isStore is)) fs fs' \<and> filter isStore is' = filter isStore is"
proof (induction "is" arbitrary: fs ch is' fs' ch')
  case Nil
  then show ?case by (simp add: grows_refl)
next
  case (Cons i rest)
  from Cons.prems obtain ins fs1 ch1 rest' where
    a: "visitInst pc md i rest (fs, ch) = Inr (ins, fs1, ch1)" and
    b: "visitInsts pc md rest (fs1, ch1) = Inr (rest', fs', ch')" and
    c: "is' = i # ins @ rest'"
    by (auto split: sum.splits prod.splits)
  from visitInst_grows [OF a] have d: "filter isStore ins = []"
    and g: "grows (length (filter isStore [i])) fs fs1" by simp_all
  from Cons.IH [OF b] have e: "grows (length (filter isStore rest)) fs1 fs'"
    and f: "filter isStore rest' = filter isStore rest" by simp_all
  from grows_trans [OF g e] c d f show ?case
    by (cases "isStore i") simp_all
qed

lemma visitBlocks_grows:
  "visitBlocks pc md bs (fs, ch) = Inr (bs', fs', ch') \<Longrightarrow>
     grows (length (filter isStore (concat bs))) fs fs' \<and>
     filter isStore (concat bs') = filter isStore (concat bs)"
proof (induction bs arbitrary: fs ch bs' fs' ch')
  case Nil
  then show ?case by (simp add: grows_refl)
next
  case (Cons b bs)
  from Cons.prems obtain b' fs1 ch1 bs1 where
    a: "visitInsts pc md b (fs, ch) = Inr (b', fs1, ch1)" and
    b: "visitBlocks pc md bs (fs1, ch1) = Inr (bs1, fs', ch')" and
    c: "bs' = b' # bs1"
    by (auto split: sum.splits prod.splits)
  from visitInsts_grows [OF a] Cons.IH [OF b] c show ?case
    by (auto dest: grows_trans)
qed

lemma visitFunction_grows:
  assumes "visitFunction pc md fs fi ch = Inr (fs', ch')" and "fi < length fs"
  shows "grows (nstores (fs ! fi)) fs fs'"
proof -
  from assms(1) obtain bs1 fs1 where
    a: "visitBlocks pc md (blocks (fs ! fi)) (fs, ch) = Inr (bs1, fs1, ch')" and
    b: "fs' = fs1[fi := (fs1 ! fi)\<lparr>blocks := bs1\<rparr>]"
    by (auto simp: visitFunction_def split: sum.splits prod.splits)
  from visitBlocks_grows [OF a] have g: "grows (nstores (fs ! fi)) fs fs1"
    and s: "filter isStore (concat bs1) = filter isStore (concat (blocks (fs ! fi)))"
    by (simp_all add: nstores_def)
  have "map nstores fs' = map nstores fs1"
    unfolding b using g s assms(2)
    by (auto simp: grows_def nstores_def map_update nth_append intro!: nth_equalityI
        simp: nth_list_update dest: arg_cong [where f = "\<lambda>xs. xs ! fi"])
  with g show ?thesis unfolding b by (simp add: grows_def)
qed

text \<open>
  \<open>visit(M)\<close>: the functions of the module in turn, those appended meanwhile
  included. The iterator is advanced before a function is visited, so what is appended
  while the last function is visited is not visited.
\<close>

function visitFunctions ::
  "(val \<Rightarrow> bool) \<Rightarrow> metadata \<Rightarrow> func list \<Rightarrow> nat \<Rightarrow> bool \<Rightarrow> error + (func list \<times> bool)" where
  "visitFunctions isPCReg md fs fi MadeChange =
     (if fi < length fs then
        (case visitFunction isPCReg md fs fi MadeChange of
           Inl e \<Rightarrow> Inl e
         | Inr (fs', ch) \<Rightarrow>
             (if Suc fi < length fs then visitFunctions isPCReg md fs' (Suc fi) ch
              else Inr (fs', ch)))
      else Inr (fs, MadeChange))"
  by pat_completeness auto
termination
proof (relation "measure (\<lambda>(pc, md, fs, fi, ch). sum_list (map (\<lambda>f. 2 * nstores f + 1) (drop fi fs)))", goal_cases)
  case 1
  then show ?case by simp
next
  case (2 pc md fs fi ch res fs' ch')
  then have g: "grows (nstores (fs ! fi)) fs fs'"
    using visitFunction_grows by metis
  let ?g = "\<lambda>n::nat. 2 * n + 1"
  let ?ns = "map nstores fs"
  let ?d = "length fs' - length fs"
  from 2 have lt: "fi < length fs" by simp
  from g have m: "map nstores fs' = ?ns @ replicate ?d 0" and d: "?d \<le> nstores (fs ! fi)"
    by (auto simp: grows_def)
  have "sum_list (map (\<lambda>f. 2 * nstores f + 1) (drop (Suc fi) fs'))
      = sum_list (map ?g (drop (Suc fi) (map nstores fs')))"
    by (simp add: drop_map comp_def)
  also have "\<dots> = sum_list (map ?g (drop (Suc fi) ?ns)) + ?d"
    using lt by (simp add: m sum_list_replicate)
  finally have new: "sum_list (map (\<lambda>f. 2 * nstores f + 1) (drop (Suc fi) fs'))
      = sum_list (map ?g (drop (Suc fi) ?ns)) + ?d" .
  have "sum_list (map (\<lambda>f. 2 * nstores f + 1) (drop fi fs))
      = sum_list (map ?g (drop fi ?ns))"
    by (simp add: drop_map comp_def)
  also have "drop fi ?ns = nstores (fs ! fi) # drop (Suc fi) ?ns"
    using lt by (metis Cons_nth_drop_Suc length_map nth_map)
  finally have old: "sum_list (map (\<lambda>f. 2 * nstores f + 1) (drop fi fs))
      = 2 * nstores (fs ! fi) + 1 + sum_list (map ?g (drop (Suc fi) ?ns))"
    by simp
  from new old d show ?case by simp
qed

declare visitFunctions.simps [simp del]

definition runOnModule :: "(val \<Rightarrow> bool) \<Rightarrow> module \<Rightarrow> error + (module \<times> bool)" where
  "runOnModule isPCReg M =
     (case visitFunctions isPCReg (relocMD M) (functionList M) 0 False of
        Inl e \<Rightarrow> Inl e
      | Inr (fs', MadeChange) \<Rightarrow> Inr (M\<lparr>functionList := fs'\<rparr>, MadeChange))"

section \<open>TranslateRelocationCallsPass\<close>

text \<open>\<open>buildCall\<close> of this pass: the callee is looked up or declared under the name it
  is given, with a variadic prototype, and the call goes in front of the store.\<close>

definition translateBuildCall :: "func list \<Rightarrow> string \<Rightarrow> func list \<times> instr" where
  "translateBuildCall fs name =
     (case getOrInsertFunction name (VoidFn True) fs of
        (fs', j, isFunc) \<Rightarrow> (fs', Call (calledValue name isFunc)))"

text \<open>\<open>handlePCStore\<close> on a store of value operand \<open>v\<close>: the first component of the
  result is what was inserted in front of the store.\<close>

definition handlePCStore :: "metadata \<Rightarrow> val \<Rightarrow> func list \<Rightarrow> instr list \<times> func list" where
  "handlePCStore md v fs =
     (case v of
        LoadRes l \<Rightarrow>
          (case getMetadata md l of
             Some (RelocName, RelocAddend) \<Rightarrow>
               (if RelocAddend = 0 then
                  (case translateBuildCall fs RelocName of (fs', c) \<Rightarrow> ([c], fs'))
                else ([], fs))
           | None \<Rightarrow> ([], fs))
      | _ \<Rightarrow> ([], fs))"

text \<open>
  The loop over the users of the load \<open>l\<close>. The users of an instruction are
  instructions of its own function that have it as an operand; the model takes them in
  the order of the function's blocks.
\<close>

definition usersInst ::
  "(val \<Rightarrow> bool) \<Rightarrow> metadata \<Rightarrow> nat \<Rightarrow> instr \<Rightarrow> func list \<Rightarrow> instr list \<times> func list" where
  "usersInst isPCReg md l i fs =
     (case i of
        Store v p \<Rightarrow>
          (if (v = LoadRes l \<or> p = LoadRes l) \<and> isPCReg p then handlePCStore md v fs
           else ([], fs))
      | _ \<Rightarrow> ([], fs))"

fun usersInsts ::
  "(val \<Rightarrow> bool) \<Rightarrow> metadata \<Rightarrow> nat \<Rightarrow> instr list \<Rightarrow> func list \<Rightarrow> instr list \<times> func list" where
  "usersInsts isPCReg md l [] fs = ([], fs)"
| "usersInsts isPCReg md l (i # rest) fs =
     (case usersInst isPCReg md l i fs of
        (ins, fs1) \<Rightarrow>
          (case usersInsts isPCReg md l rest fs1 of
             (rest', fs2) \<Rightarrow> (ins @ i # rest', fs2)))"

fun usersBlocks ::
  "(val \<Rightarrow> bool) \<Rightarrow> metadata \<Rightarrow> nat \<Rightarrow> instr list list \<Rightarrow> func list
     \<Rightarrow> instr list list \<times> func list" where
  "usersBlocks isPCReg md l [] fs = ([], fs)"
| "usersBlocks isPCReg md l (b # bs) fs =
     (case usersInsts isPCReg md l b fs of
        (b', fs1) \<Rightarrow>
          (case usersBlocks isPCReg md l bs fs1 of (bs', fs2) \<Rightarrow> (b' # bs', fs2)))"

definition handleUsers ::
  "(val \<Rightarrow> bool) \<Rightarrow> metadata \<Rightarrow> nat \<Rightarrow> nat \<Rightarrow> func list \<Rightarrow> func list" where
  "handleUsers isPCReg md l fi fs =
     (case usersBlocks isPCReg md l (blocks (fs ! fi)) fs of
        (bs', fs') \<Rightarrow> fs'[fi := (fs' ! fi)\<lparr>blocks := bs'\<rparr>])"

text \<open>The loop of \<open>handleLoad\<close> over the relocation table, for the load \<open>l\<close> of
  function \<open>fi\<close> whose address is the constant \<open>c\<close>.\<close>

fun translateScan ::
  "(val \<Rightarrow> bool) \<Rightarrow> RelocationInfo list \<Rightarrow> nat \<Rightarrow> nat \<Rightarrow> nat \<Rightarrow> func list \<times> metadata
     \<Rightarrow> (func list \<times> metadata) \<times> bool" where
  "translateScan isPCReg [] c l fi s = (s, False)"
| "translateScan isPCReg (r # rs) c l fi (fs, md) =
     (if equalsInt c (Address r) then
        (if getMetadata md l = None then
           (let md' = setMetadata l (Name r, Addend r) md
            in ((handleUsers isPCReg md' l fi fs, md'), True))
         else translateScan isPCReg rs c l fi (fs, md))
      else translateScan isPCReg rs c l fi (fs, md))"

definition translateHandleLoad ::
  "(val \<Rightarrow> bool) \<Rightarrow> RelocationInfo list \<Rightarrow> nat \<Rightarrow> val \<Rightarrow> nat \<Rightarrow> func list \<times> metadata
     \<Rightarrow> (func list \<times> metadata) \<times> bool" where
  "translateHandleLoad isPCReg relocs l p fi s =
     (case p of IntToPtrConst c \<Rightarrow> translateScan isPCReg relocs c l fi s | _ \<Rightarrow> (s, False))"

text \<open>The loop of \<open>runOnBasicBlock\<close> over the instructions of the block. What is
  inserted into the block meanwhile is a call, which the loop body passes over.\<close>

definition translateInst ::
  "(val \<Rightarrow> bool) \<Rightarrow> RelocationInfo list \<Rightarrow> nat \<Rightarrow> instr \<Rightarrow> func list \<times> metadata
     \<Rightarrow> (func list \<times> metadata) \<times> bool" where
  "translateInst isPCReg relocs fi i s =
     (case i of Load l p \<Rightarrow> translateHandleLoad isPCReg relocs l p fi s | _ \<Rightarrow> (s, False))"

fun translateInsts ::
  "(val \<Rightarrow> bool) \<Rightarrow> RelocationInfo list \<Rightarrow> nat \<Rightarrow> instr list \<Rightarrow> (func list \<times> metadata) \<times> bool
     \<Rightarrow> (func list \<times> metadata) \<times> bool" where
  "translateInsts isPCReg relocs fi [] s = s"
| "translateInsts isPCReg relocs fi (i # is) (s, res) =
     (case translateInst isPCReg relocs fi i s of
        (s', c) \<Rightarrow> translateInsts isPCReg relocs fi is (s', res \<or> c))"

definition translateRunOnBasicBlock ::
  "(val \<Rightarrow> bool) \<Rightarrow> RelocationInfo list \<Rightarrow> module \<Rightarrow> nat \<Rightarrow> nat \<Rightarrow> module \<times> bool" where
  "translateRunOnBasicBlock isPCReg relocs M fi bi =
     (case translateInsts isPCReg relocs fi (blockAt M fi bi) ((functionList M, relocMD M), False) of
        ((fs', md'), res) \<Rightarrow> (M\<lparr>functionList := fs', relocMD := md'\<rparr>, res))"

section \<open>AddLibraryMetadataPass\<close>

text \<open>
  Modelled from the spec: the body of \<open>AddLibraryMetadataPass::runOnModule\<close> is not
  among the sources (only the declaration of the class is). The spec has it attach the
  library list to the module as one piece of linker-facing metadata, one entry per
  library, in the order of the input, a later list replacing an earlier one.
\<close>

definition addLibraryMetadata :: "string list \<Rightarrow> module \<Rightarrow> module" where
  "addLibraryMetadata Libraries M = M\<lparr>linkerOptions := Libraries\<rparr>"

section \<open>Modules of the scenarios\<close>

definition pcOracle :: "val \<Rightarrow> bool" where
  "pcOracle v = (v = GlobalVar ''pc'')"

definition printfRelocs :: "RelocationInfo list" where
  "printfRelocs = [\<lparr>Address = 0x4020, Name = ''printf'', Addend = 0\<rparr>]"

text \<open>One function of one block: \<open>r = load(inttoptr(0x4020)); store(PC, r)\<close> and the
  block's terminator.\<close>

definition printfModule :: module where
  "printfModule =
     \<lparr>functionList =
        [\<lparr>fname = ''root'', ftype = VoidFn False,
          blocks = [[Load 0 (IntToPtrConst 0x4020), Store (LoadRes 0) (GlobalVar ''pc''), RetVoid]]\<rparr>],
      relocMD = [], linkerOptions = []\<rparr>"

definition printfModuleRewritten :: module where
  "printfModuleRewritten =
     \<lparr>functionList =
        [\<lparr>fname = ''root'', ftype = VoidFn False,
          blocks = [[Load 0 (IntToPtrConst 0x4020), Store (LoadRes 0) (GlobalVar ''pc''),
                     Call (Fn ''dl.printf''), RetVoid]]\<rparr>,
         \<lparr>fname = ''dl.printf'', ftype = VoidFn False, blocks = [[RetVoid]]\<rparr>],
      relocMD = [(0, (''printf'', 0))], linkerOptions = []\<rparr>"

definition printfModuleTranslated :: module where
  "printfModuleTranslated =
     \<lparr>functionList =
        [\<lparr>fname = ''root'', ftype = VoidFn False,
          blocks = [[Load 0 (IntToPtrConst 0x4020), Call (Fn ''printf''),
                     Store (LoadRes 0) (GlobalVar ''pc''), RetVoid]]\<rparr>,
         \<lparr>fname = ''printf'', ftype = VoidFn True, blocks = []\<rparr>],
      relocMD = [(0, (''printf'', 0))], linkerOptions = []\<rparr>"


definition dataSymMD :: metadata where
  "dataSymMD = [(0, (''data_sym'', 8))]"

definition firstTagModule :: module where
  "firstTagModule = printfModule\<lparr>relocMD := [(0, (''first'', 7))]\<rparr>"

text \<open>The scenario's module with its tag, the block ending with the store.\<close>

definition unterminatedModule :: module where
  "unterminatedModule =
     \<lparr>functionList =
        [\<lparr>fname = ''root'', ftype = VoidFn False,
          blocks = [[Load 0 (IntToPtrConst 0x4020), Store (LoadRes 0) (GlobalVar ''pc'')]]\<rparr>],
      relocMD = [(0, (''printf'', 0))], linkerOptions = []\<rparr>"

text \<open>The tagged module of the scenario, in which a function \<open>dl.printf\<close> is already
  declared with a variadic function type; and what the rewrite makes of it in one run
  and in two.\<close>

definition variadicStubModule :: module where
  "variadicStubModule =
     \<lparr>functionList =
        [\<lparr>fname = ''root'', ftype = VoidFn False,
          blocks = [[Load 0 (IntToPtrConst 0x4020), Store (LoadRes 0) (GlobalVar ''pc''), RetVoid]]\<rparr>,
         \<lparr>fname = ''dl.printf'', ftype = VoidFn True, blocks = []\<rparr>],
      relocMD = [(0, (''printf'', 0))], linkerOptions = []\<rparr>"

definition variadicStubModuleOnce :: module where
  "variadicStubModuleOnce =
     \<lparr>functionList =
        [\<lparr>fname = ''root'', ftype = VoidFn False,
          blocks = [[Load 0 (IntToPtrConst 0x4020), Store (LoadRes 0) (GlobalVar ''pc''),
                     Call (Cast ''dl.printf''), RetVoid]]\<rparr>,
         \<lparr>fname = ''dl.printf'', ftype = VoidFn True, blocks = []\<rparr>],
      relocMD = [(0, (''printf'', 0))], linkerOptions = []\<rparr>"

definition variadicStubModuleTwice :: module where
  "variadicStubModuleTwice =
     \<lparr>functionList =
        [\<lparr>fname = ''root'', ftype = VoidFn False,
          blocks = [[Load 0 (IntToPtrConst 0x4020), Store (LoadRes 0) (GlobalVar ''pc''),
                     Call (Cast ''dl.printf''), Call (Cast ''dl.printf''), RetVoid]]\<rparr>,
         \<lparr>fname = ''dl.printf'', ftype = VoidFn True, blocks = []\<rparr>],
      relocMD = [(0, (''printf'', 0))], linkerOptions = []\<rparr>"

lemmas run_defs =
  visitFunctions.simps runOnModule_def locateRunOnBasicBlock_def blockAt_def locateHandleLoad_def equalsInt_def
  getMetadata_def visitFunction_def visitInst_def visitStoreInst_def getRelocName_def
  succeededByCall_def locateInst_def calledValue_def
  buildCall_def getOrInsertFunction_def getFunction_def createEntry_def isDeclaration_def Let_def

lemmas translate_defs =
  translateRunOnBasicBlock_def blockAt_def translateInst_def translateHandleLoad_def
  equalsInt_def getMetadata_def handleUsers_def usersInst_def handlePCStore_def
  translateBuildCall_def getOrInsertFunction_def getFunction_def calledValue_def Let_def

lemma locate_printfModule:
  "locateRunOnBasicBlock printfRelocs printfModule 0 0 =
     (printfModule\<lparr>relocMD := [(0, (''printf'', 0))]\<rparr>, True)"
  by (simp add: run_defs printfRelocs_def printfModule_def)

lemma rewrite_tagged_printfModule:
  "runOnModule pcOracle (printfModule\<lparr>relocMD := [(0, (''printf'', 0))]\<rparr>) =
     Inr (printfModuleRewritten, True)"
  by (simp add: run_defs printfModule_def printfModuleRewritten_def pcOracle_def)

lemma rewrite_untagged_printfModule:
  "runOnModule pcOracle printfModule = Inr (printfModule, False)"
  by (simp add: run_defs printfModule_def pcOracle_def)

lemma translate_printfModule:
  "translateRunOnBasicBlock pcOracle printfRelocs printfModule 0 0 =
     (printfModuleTranslated, True)"
  by (simp add: translate_defs printfRelocs_def printfModule_def printfModuleTranslated_def
      pcOracle_def)

section \<open>The module-wide rewrite: stores that already have their call\<close>

text \<open>
  \<open>stubName\<close> is the name \<open>visitStoreInst\<close> computes for a store it would act on: the
  store writes the program counter and its value is a load whose relocation name, asked
  for with a zero addend, is not empty. A block is settled when every such store is
  already followed by the call of that name.
\<close>

definition stubName :: "(val \<Rightarrow> bool) \<Rightarrow> metadata \<Rightarrow> instr \<Rightarrow> string option" where
  "stubName isPCReg md i =
     (case i of
        Store (LoadRes l) p \<Rightarrow>
          (if isPCReg p \<and> getRelocName md l True \<noteq> []
           then Some (''dl.'' @ getRelocName md l True) else None)
      | _ \<Rightarrow> None)"

fun settled :: "(val \<Rightarrow> bool) \<Rightarrow> metadata \<Rightarrow> instr list \<Rightarrow> bool" where
  "settled isPCReg md [] = True"
| "settled isPCReg md (i # rest) =
     ((case stubName isPCReg md i of
         None \<Rightarrow> True
       | Some n \<Rightarrow> succeededByCall rest n = Inr True) \<and>
      settled isPCReg md rest)"

definition settledFn :: "(val \<Rightarrow> bool) \<Rightarrow> metadata \<Rightarrow> func \<Rightarrow> bool" where
  "settledFn isPCReg md f = list_all (settled isPCReg md) (blocks f)"

lemma visitInst_no_stub:
  "stubName pc md i = None \<Longrightarrow> visitInst pc md i rest s = Inr ([], s)"
  by (auto simp: stubName_def visitInst_def visitStoreInst_def Let_def
      split: instr.splits val.splits if_splits prod.splits)

lemma visitInst_stub:
  "stubName pc md i = Some n \<Longrightarrow>
   visitInst pc md i rest (fs, ch) =
     (case succeededByCall rest n of
        Inl e \<Rightarrow> Inl e
      | Inr True \<Rightarrow> Inr ([], fs, ch)
      | Inr False \<Rightarrow>
          (case buildCall fs rest n of
             Inl e \<Rightarrow> Inl e
           | Inr (fs', c) \<Rightarrow> Inr ([c], fs', True)))"
  by (auto simp: stubName_def visitInst_def visitStoreInst_def Let_def
      split: instr.splits val.splits if_splits prod.splits)

lemma settled_visitInsts: "settled pc md is \<Longrightarrow> visitInsts pc md is s = Inr (is, s)"
proof (induction "is" arbitrary: s)
  case Nil
  then show ?case by simp
next
  case (Cons i rest)
  obtain fs ch where s: "s = (fs, ch)" by (cases s)
  show ?case
  proof (cases "stubName pc md i")
    case None
    with Cons show ?thesis by (simp add: visitInst_no_stub)
  next
    case (Some n)
    with Cons show ?thesis by (simp add: s visitInst_stub)
  qed
qed

lemma stubName_Call: "stubName pc md (Call c) = None"
  by (simp add: stubName_def)

lemma visitInsts_head:
  "visitInsts pc md (i # rest) s = Inr (is', s') \<Longrightarrow> \<exists>t. is' = i # t"
  by (auto split: sum.splits prod.splits)

lemma succeededByCall_visitInsts:
  assumes "succeededByCall rest n = Inr True" and "visitInsts pc md rest s = Inr (rest', s')"
  shows "succeededByCall rest' n = Inr True"
proof -
  from assms(1) obtain r0 where "rest = Call (Fn n) # r0"
    by (auto simp: succeededByCall_def split: list.splits instr.splits callee.splits)
  with visitInsts_head assms(2) obtain t where "rest' = Call (Fn n) # t" by blast
  then show ?thesis by (simp add: succeededByCall_def)
qed

lemma settled_visitBlocks:
  "list_all (settled pc md) bs \<Longrightarrow> visitBlocks pc md bs s = Inr (bs, s)"
  by (induction bs arbitrary: s) (simp_all add: settled_visitInsts)

lemma settled_visitFunction:
  "settledFn pc md (fs ! fi) \<Longrightarrow> visitFunction pc md fs fi ch = Inr (fs, ch)"
  by (simp add: settledFn_def visitFunction_def settled_visitBlocks)

lemma settled_visitFunctions:
  "(\<And>j. fi \<le> j \<Longrightarrow> j < length fs \<Longrightarrow> settledFn pc md (fs ! j)) \<Longrightarrow>
   visitFunctions pc md fs fi ch = Inr (fs, ch)"
proof (induction pc md fs fi ch rule: visitFunctions.induct)
  case (1 pc md fs fi ch)
  show ?case
  proof (cases "fi < length fs")
    case True
    with "1.prems" have v: "visitFunction pc md fs fi ch = Inr (fs, ch)"
      by (simp add: settled_visitFunction)
    show ?thesis
    proof (cases "Suc fi < length fs")
      case t: True
      have "visitFunctions pc md fs (Suc fi) ch = Inr (fs, ch)"
        using "1.IH" [OF True v refl t] "1.prems" by simp
      with True v t show ?thesis by (subst visitFunctions.simps) simp
    next
      case False
      with True v show ?thesis by (subst visitFunctions.simps) simp
    qed
  next
    case False
    then show ?thesis by (subst visitFunctions.simps) simp
  qed
qed

text \<open>
  What a walk does to the function list: \<open>evolves fs fs'\<close> when \<open>fs'\<close> is \<open>fs\<close> with
  some declarations given the body of a stub and some stubs appended.
\<close>

definition evolves :: "func list \<Rightarrow> func list \<Rightarrow> bool" where
  "evolves fs fs' =
     (length fs \<le> length fs' \<and>
      (\<forall>j < length fs'.
         if j < length fs
         then fs' ! j = fs ! j \<or>
              (blocks (fs ! j) = [] \<and> fs' ! j = (fs ! j)\<lparr>blocks := [[RetVoid]]\<rparr>)
         else blocks (fs' ! j) = [[RetVoid]] \<and> ftype (fs' ! j) = VoidFn False))"

lemma evolves_refl: "evolves fs fs"
  by (simp add: evolves_def)

lemma evolves_nth:
  "evolves fs fs' \<Longrightarrow> j < length fs' \<Longrightarrow>
   (if j < length fs
    then fs' ! j = fs ! j \<or>
         (blocks (fs ! j) = [] \<and> fs' ! j = (fs ! j)\<lparr>blocks := [[RetVoid]]\<rparr>)
    else blocks (fs' ! j) = [[RetVoid]] \<and> ftype (fs' ! j) = VoidFn False)"
  by (simp add: evolves_def)

lemma evolves_length: "evolves fs fs' \<Longrightarrow> length fs \<le> length fs'"
  by (simp add: evolves_def)

lemma evolves_trans:
  assumes "evolves fs fs1" and "evolves fs1 fs2"
  shows "evolves fs fs2"
  unfolding evolves_def
proof (intro conjI allI impI)
  show "length fs \<le> length fs2" using assms by (simp add: evolves_def)
next
  fix j assume j: "j < length fs2"
  note 2 = evolves_nth [OF assms(2) j]
  note l = evolves_length [OF assms(1)]
  show "if j < length fs
        then fs2 ! j = fs ! j \<or> (blocks (fs ! j) = [] \<and> fs2 ! j = (fs ! j)\<lparr>blocks := [[RetVoid]]\<rparr>)
        else blocks (fs2 ! j) = [[RetVoid]] \<and> ftype (fs2 ! j) = VoidFn False"
  proof (cases "j < length fs1")
    case True
    note 1 = evolves_nth [OF assms(1) True]
    from 1 2 l True show ?thesis by (auto split: if_splits)
  next
    case False
    with 2 l show ?thesis by auto
  qed
qed

lemma getOrInsertFunction_cases:
  assumes "getOrInsertFunction n ty fs = (fs1, j, isFunc)"
  shows "(fs1 = fs \<and> j < length fs \<and> getFunction fs n = Some j \<and>
          isFunc = (ftype (fs ! j) = ty)) \<or>
         (fs1 = fs @ [\<lparr>fname = n, ftype = ty, blocks = []\<rparr>] \<and> j = length fs \<and>
          getFunction fs n = None \<and> isFunc)"
  using assms
  by (auto simp: getOrInsertFunction_def getFunction_def split: option.splits if_splits
      dest: lookupFn_less)

lemma createEntry_evolves: "j < length fs \<Longrightarrow> evolves fs (createEntry fs j)"
  by (auto simp: createEntry_def isDeclaration_def evolves_def nth_list_update)

lemma createEntry_new:
  "createEntry (fs @ [\<lparr>fname = n, ftype = ty, blocks = []\<rparr>]) (length fs) =
     fs @ [\<lparr>fname = n, ftype = ty, blocks = [[RetVoid]]\<rparr>]"
  by (simp add: createEntry_def isDeclaration_def)

lemma evolves_append:
  "evolves fs (fs @ [\<lparr>fname = n, ftype = VoidFn False, blocks = [[RetVoid]]\<rparr>])"
  by (auto simp: evolves_def nth_append)

lemma buildCall_evolves:
  assumes "buildCall fs rest n = Inr (fs', c)"
  shows "evolves fs fs'"
proof -
  obtain fs1 j isFunc where g: "getOrInsertFunction n (VoidFn False) fs = (fs1, j, isFunc)"
    by (metis surj_pair)
  with assms have f: "fs' = (if isFunc then createEntry fs1 j else fs1)"
    by (auto simp: buildCall_def Let_def split: list.splits)
  from getOrInsertFunction_cases [OF g] show ?thesis
    by (auto simp: f createEntry_new evolves_append createEntry_evolves evolves_refl)
qed

lemma visitInst_evolves:
  "visitInst pc md i rest (fs, ch) = Inr (ins, fs', ch') \<Longrightarrow> evolves fs fs'"
  by (cases "stubName pc md i")
    (auto simp: visitInst_no_stub visitInst_stub evolves_refl
      split: sum.splits bool.splits prod.splits dest: buildCall_evolves)

lemma visitInsts_evolves:
  "visitInsts pc md is (fs, ch) = Inr (is', fs', ch') \<Longrightarrow> evolves fs fs'"
proof (induction "is" arbitrary: fs ch is')
  case Nil
  then show ?case by (simp add: evolves_refl)
next
  case (Cons i rest)
  then show ?case
    by (auto split: sum.splits prod.splits dest: visitInst_evolves intro: evolves_trans)
qed

lemma visitBlocks_evolves:
  "visitBlocks pc md bs (fs, ch) = Inr (bs', fs', ch') \<Longrightarrow> evolves fs fs'"
proof (induction bs arbitrary: fs ch bs')
  case Nil
  then show ?case by (simp add: evolves_refl)
next
  case (Cons b bs)
  then show ?case
    by (auto split: sum.splits prod.splits dest: visitInsts_evolves intro: evolves_trans)
qed

text \<open>
  While the blocks of a function are walked the function itself stays as it was in the
  list (it has a block, so no entry block is created for it): \<open>visitFunction\<close> loses
  nothing when it makes the walked blocks the blocks of the function.
\<close>

lemma visitBlocks_own:
  assumes "visitBlocks pc md bs (fs, ch) = Inr (bs', fs', ch')"
    and "fi < length fs" and "blocks (fs ! fi) \<noteq> []"
  shows "fs' ! fi = fs ! fi"
proof -
  from visitBlocks_evolves [OF assms(1)] have e: "evolves fs fs'" .
  with assms(2) have l: "fi < length fs'" by (simp add: evolves_def)
  from evolves_nth [OF e l] assms(2,3) show ?thesis by simp
qed

lemma visitFunction_length:
  "visitFunction pc md fs fi ch = Inr (fs', ch') \<Longrightarrow> length fs \<le> length fs'"
  by (auto simp: visitFunction_def evolves_def split: sum.splits prod.splits
      dest!: visitBlocks_evolves)

text \<open>
  \<open>stubsAgree fs\<close>: every function of the list whose name begins with \<open>dl.\<close> has the
  function type the rewrite asks for, so that \<open>getOrInsertFunction\<close> hands it back itself
  and not a cast of it. The rewrite keeps this, and under it the call that \<open>buildCall\<close>
  inserts is one that \<open>succeededByCall\<close> recognises.
\<close>

definition stubsAgree :: "func list \<Rightarrow> bool" where
  "stubsAgree fs =
     list_all (\<lambda>f. take 3 (fname f) = ''dl.'' \<longrightarrow> ftype f = VoidFn False) fs"

lemma stubsAgree_nth:
  "stubsAgree fs =
     (\<forall>j < length fs. take 3 (fname (fs ! j)) = ''dl.'' \<longrightarrow> ftype (fs ! j) = VoidFn False)"
  by (simp add: stubsAgree_def list_all_length)

lemma stubsAgree_evolves:
  assumes "stubsAgree fs" and "evolves fs fs'"
  shows "stubsAgree fs'"
  unfolding stubsAgree_nth
proof (intro allI impI)
  fix j assume j: "j < length fs'" and d: "take 3 (fname (fs' ! j)) = ''dl.''"
  show "ftype (fs' ! j) = VoidFn False"
  proof (cases "j < length fs")
    case True
    with evolves_nth [OF assms(2) j] have
      "fname (fs' ! j) = fname (fs ! j) \<and> ftype (fs' ! j) = ftype (fs ! j)" by auto
    with assms(1) True d show ?thesis by (simp add: stubsAgree_nth)
  next
    case False
    with evolves_nth [OF assms(2) j] show ?thesis by simp
  qed
qed

lemma stubsAgree_blocks:
  assumes "stubsAgree fs"
  shows "stubsAgree (fs[fi := (fs ! fi)\<lparr>blocks := bs\<rparr>])"
proof (cases "fi < length fs")
  case True
  with assms show ?thesis by (auto simp: stubsAgree_nth nth_list_update)
next
  case False
  then have "fs[fi := (fs ! fi)\<lparr>blocks := bs\<rparr>] = fs" by (simp add: list_update_beyond)
  with assms show ?thesis by simp
qed

lemma lookupFn_name: "lookupFn n fs = Some j \<Longrightarrow> fname (fs ! j) = n"
  by (induction fs arbitrary: j) (auto split: if_splits)

lemma stubName_prefix: "stubName pc md i = Some n \<Longrightarrow> take 3 n = ''dl.''"
  by (auto simp: stubName_def split: instr.splits val.splits if_splits)

lemma buildCall_call:
  assumes "buildCall fs rest n = Inr (fs', c)" and "stubsAgree fs" and "take 3 n = ''dl.''"
  shows "c = Call (Fn n)"
proof -
  obtain fs1 j isFunc where g: "getOrInsertFunction n (VoidFn False) fs = (fs1, j, isFunc)"
    by (metis surj_pair)
  with assms(1) have c: "c = Call (calledValue n isFunc)"
    by (auto simp: buildCall_def Let_def split: list.splits)
  from getOrInsertFunction_cases [OF g] have isFunc
  proof (elim disjE conjE)
    assume a: "j < length fs" "getFunction fs n = Some j" "isFunc = (ftype (fs ! j) = VoidFn False)"
    then have "fname (fs ! j) = n"
      by (auto simp: getFunction_def split: if_splits dest: lookupFn_name)
    with assms(2,3) a(1) have "ftype (fs ! j) = VoidFn False" by (simp add: stubsAgree_nth)
    with a(3) show isFunc by simp
  qed
  with c show ?thesis by (simp add: calledValue_def)
qed

lemma visitInsts_settled:
  "visitInsts pc md is s = Inr (is', s') \<Longrightarrow> stubsAgree (fst s) \<Longrightarrow> settled pc md is'"
proof (induction "is" arbitrary: s is' s')
  case Nil
  then show ?case by auto
next
  case (Cons i rest)
  obtain fs ch where s: "s = (fs, ch)" by (cases s)
  from Cons.prems(1) obtain ins fs1 ch1 rest' where
    a: "visitInst pc md i rest (fs, ch) = Inr (ins, fs1, ch1)" and
    b: "visitInsts pc md rest (fs1, ch1) = Inr (rest', s')" and
    c: "is' = i # ins @ rest'"
    by (auto simp: s split: sum.splits prod.splits)
  from Cons.prems(2) s have g: "stubsAgree fs" by simp
  from stubsAgree_evolves [OF g visitInst_evolves [OF a]] have "stubsAgree fs1" .
  with Cons.IH [OF b] have r: "settled pc md rest'" by simp
  show ?case
  proof (cases "stubName pc md i")
    case None
    with a have "ins = []" by (simp add: visitInst_no_stub)
    with None r c show ?thesis by simp
  next
    case (Some n)
    show ?thesis
    proof (cases "succeededByCall rest n")
      case (Inl e)
      with a Some show ?thesis by (simp add: visitInst_stub)
    next
      case (Inr t)
      show ?thesis
      proof (cases t)
        case True
        with a Some Inr have "ins = []" by (simp add: visitInst_stub)
        moreover from succeededByCall_visitInsts [OF _ b] Inr True
        have "succeededByCall rest' n = Inr True" by simp
        ultimately show ?thesis using Some r c by simp
      next
        case False
        with a Some Inr obtain fs2 c2 where k: "buildCall fs rest n = Inr (fs2, c2)"
          and "ins = [c2]"
          by (auto simp: visitInst_stub split: sum.splits)
        with buildCall_call [OF k g stubName_prefix [OF Some]] have "ins = [Call (Fn n)]"
          by simp
        with Some r c show ?thesis by (simp add: succeededByCall_def stubName_Call)
      qed
    qed
  qed
qed

lemma visitBlocks_settled:
  "visitBlocks pc md bs s = Inr (bs', s') \<Longrightarrow> stubsAgree (fst s) \<Longrightarrow>
   list_all (settled pc md) bs'"
proof (induction bs arbitrary: s bs' s')
  case Nil
  then show ?case by auto
next
  case (Cons b bs)
  obtain fs ch where s: "s = (fs, ch)" by (cases s)
  from Cons.prems(1) obtain b' fs1 ch1 bs1 where
    a: "visitInsts pc md b (fs, ch) = Inr (b', fs1, ch1)" and
    b: "visitBlocks pc md bs (fs1, ch1) = Inr (bs1, s')" and
    c: "bs' = b' # bs1"
    by (auto simp: s split: sum.splits prod.splits)
  from Cons.prems(2) s have g: "stubsAgree fs" by simp
  from stubsAgree_evolves [OF g visitInsts_evolves [OF a]] have "stubsAgree fs1" .
  with Cons.IH [OF b] have "list_all (settled pc md) bs1" by simp
  moreover from visitInsts_settled [OF a] g have "settled pc md b'" by simp
  ultimately show ?case using c by simp
qed

lemma settled_stub: "settledFn pc md f" if "blocks f = [[RetVoid]]"
  using that by (simp add: settledFn_def stubName_def)

lemma visitFunction_settles:
  assumes v: "visitFunction pc md fs fi ch = Inr (fs', ch')" and lt: "fi < length fs"
    and g: "stubsAgree fs"
    and j: "j < length fs'" and c: "j < length fs \<Longrightarrow> j \<noteq> fi \<Longrightarrow> settledFn pc md (fs ! j)"
  shows "settledFn pc md (fs' ! j)"
proof -
  from v obtain bs1 fs1 where
    a: "visitBlocks pc md (blocks (fs ! fi)) (fs, ch) = Inr (bs1, fs1, ch')" and
    b: "fs' = fs1[fi := (fs1 ! fi)\<lparr>blocks := bs1\<rparr>]"
    by (auto simp: visitFunction_def split: sum.splits prod.splits)
  from visitBlocks_evolves [OF a] have e: "evolves fs fs1" .
  from visitBlocks_settled [OF a] g have s: "list_all (settled pc md) bs1" by simp
  from e lt have l: "fi < length fs1" by (simp add: evolves_def)
  show ?thesis
  proof (cases "j = fi")
    case True
    with b l s show ?thesis by (simp add: settledFn_def)
  next
    case False
    with b j have x: "fs' ! j = fs1 ! j" and jl: "j < length fs1" by simp_all
    from evolves_nth [OF e jl] c False x show ?thesis
      by (auto split: if_splits intro: settled_stub)
  qed
qed

lemma visitFunction_stubsAgree:
  assumes "visitFunction pc md fs fi ch = Inr (fs', ch')" and "stubsAgree fs"
  shows "stubsAgree fs'"
proof -
  from assms(1) obtain bs1 fs1 where
    a: "visitBlocks pc md (blocks (fs ! fi)) (fs, ch) = Inr (bs1, fs1, ch')" and
    b: "fs' = fs1[fi := (fs1 ! fi)\<lparr>blocks := bs1\<rparr>]"
    by (auto simp: visitFunction_def split: sum.splits prod.splits)
  from stubsAgree_evolves [OF assms(2) visitBlocks_evolves [OF a]] show ?thesis
    unfolding b by (rule stubsAgree_blocks)
qed

lemma visitFunctions_settles:
  "visitFunctions pc md fs fi ch = Inr (fs', ch') \<Longrightarrow> stubsAgree fs \<Longrightarrow>
   (\<And>j. j < fi \<Longrightarrow> j < length fs \<Longrightarrow> settledFn pc md (fs ! j)) \<Longrightarrow>
   j < length fs' \<Longrightarrow> settledFn pc md (fs' ! j)"
proof (induction pc md fs fi ch arbitrary: j rule: visitFunctions.induct)
  case (1 pc md fs fi ch)
  show ?case
  proof (cases "fi < length fs")
    case True
    with "1.prems"(1) obtain fs1 ch1 where
      v: "visitFunction pc md fs fi ch = Inr (fs1, ch1)"
      by (subst (asm) visitFunctions.simps) (auto split: sum.splits)
    have pre: "settledFn pc md (fs1 ! k)" if "k < length fs1" "k < length fs \<longrightarrow> k \<le> fi" for k
    proof (rule visitFunction_settles [OF v True "1.prems"(2) that(1)])
      assume "k < length fs" "k \<noteq> fi"
      with that(2) have "k < fi" by simp
      with "1.prems"(3) \<open>k < length fs\<close> show "settledFn pc md (fs ! k)" by simp
    qed
    from visitFunction_stubsAgree [OF v "1.prems"(2)] have g1: "stubsAgree fs1" .
    show ?thesis
    proof (cases "Suc fi < length fs")
      case t: True
      with True v "1.prems"(1) have r: "visitFunctions pc md fs1 (Suc fi) ch1 = Inr (fs', ch')"
        by (subst (asm) visitFunctions.simps) simp
      show ?thesis
      proof (rule "1.IH" [OF True v refl t r g1 _ "1.prems"(4)])
        fix k assume "k < Suc fi" "k < length fs1"
        then show "settledFn pc md (fs1 ! k)" by (intro pre) auto
      qed
    next
      case False
      with True v "1.prems"(1) have "fs' = fs1"
        by (subst (asm) visitFunctions.simps) simp
      moreover have "settledFn pc md (fs1 ! j)"
        using "1.prems"(4) False True \<open>fs' = fs1\<close> by (intro pre) auto
      ultimately show ?thesis by simp
    qed
  next
    case False
    with "1.prems"(1) have "fs' = fs"
      by (subst (asm) visitFunctions.simps) simp
    with "1.prems"(3,4) False show ?thesis by simp
  qed
qed

text \<open>
  The rewrite run on what it has produced changes nothing, for a module in which the
  functions named \<open>dl.\<close>\<dots> have the function type of the stub.
\<close>

lemma rewrite_again_stubsAgree:
  assumes "runOnModule isPCReg M = Inr (M1, c)" and "stubsAgree (functionList M)"
  shows "runOnModule isPCReg M1 = Inr (M1, False)"
proof -
  from assms(1) obtain fs1 where
    v: "visitFunctions isPCReg (relocMD M) (functionList M) 0 False = Inr (fs1, c)" and
    m: "M1 = M\<lparr>functionList := fs1\<rparr>"
    by (auto simp: runOnModule_def split: sum.splits prod.splits)
  have "settledFn isPCReg (relocMD M) (fs1 ! j)" if "j < length fs1" for j
    using visitFunctions_settles [OF v assms(2) _ that] by simp
  then have "visitFunctions isPCReg (relocMD M) fs1 0 False = Inr (fs1, False)"
    by (intro settled_visitFunctions) simp
  then show ?thesis by (simp add: runOnModule_def m)
qed

section \<open>The module-wide rewrite: when it returns\<close>

text \<open>Every store of the block has a following instruction.\<close>

fun storesFollowed :: "instr list \<Rightarrow> bool" where
  "storesFollowed [] = True"
| "storesFollowed (i # rest) = ((isStore i \<longrightarrow> rest \<noteq> []) \<and> storesFollowed rest)"

lemma stubName_isStore: "stubName pc md i = Some n \<Longrightarrow> isStore i"
  by (auto simp: stubName_def isStore_def split: instr.splits)

lemma succeededByCall_returns: "rest \<noteq> [] \<Longrightarrow> \<exists>b. succeededByCall rest n = Inr b"
  by (auto simp: succeededByCall_def split: list.splits instr.splits callee.splits)

lemma buildCall_returns: "rest \<noteq> [] \<Longrightarrow> \<exists>r. buildCall fs rest n = Inr r"
  by (auto simp: buildCall_def Let_def split: list.splits prod.splits)

lemma visitInst_returns:
  assumes "isStore i \<longrightarrow> rest \<noteq> []"
  shows "\<exists>r. visitInst pc md i rest s = Inr r"
proof (cases "stubName pc md i")
  case None
  then show ?thesis by (simp add: visitInst_no_stub)
next
  case (Some n)
  obtain fs ch where s: "s = (fs, ch)" by (cases s)
  from Some assms have r: "rest \<noteq> []" by (auto dest: stubName_isStore)
  from succeededByCall_returns [OF r] obtain b where b: "succeededByCall rest n = Inr b" by blast
  from buildCall_returns [OF r] obtain q where q: "buildCall fs rest n = Inr q" by blast
  show ?thesis
    by (cases b; cases q) (auto simp: s visitInst_stub [OF Some] b q)
qed

lemma visitInsts_returns: "storesFollowed is \<Longrightarrow> \<exists>r. visitInsts pc md is s = Inr r"
proof (induction "is" arbitrary: s)
  case Nil
  then show ?case by simp
next
  case (Cons i rest)
  from Cons.prems have p: "isStore i \<longrightarrow> rest \<noteq> []" and q: "storesFollowed rest"
    by simp_all
  from visitInst_returns [OF p, of pc md s] obtain t where t: "visitInst pc md i rest s = Inr t"
    by blast
  obtain ins s1 where t1: "t = (ins, s1)" by (cases t)
  from Cons.IH [OF q, of s1] obtain r where r: "visitInsts pc md rest s1 = Inr r" by blast
  obtain rest' s2 where r1: "r = (rest', s2)" by (cases r)
  from t t1 r r1 show ?case by simp
qed

lemma visitBlocks_returns:
  "list_all storesFollowed bs \<Longrightarrow> \<exists>r. visitBlocks pc md bs s = Inr r"
proof (induction bs arbitrary: s)
  case Nil
  then show ?case by simp
next
  case (Cons b bs)
  from Cons.prems have p: "storesFollowed b" and q: "list_all storesFollowed bs"
    by simp_all
  from visitInsts_returns [OF p, of pc md s] obtain t where t: "visitInsts pc md b s = Inr t"
    by blast
  obtain b' s1 where t1: "t = (b', s1)" by (cases t)
  from Cons.IH [OF q, of s1] obtain r where r: "visitBlocks pc md bs s1 = Inr r" by blast
  obtain bs' s2 where r1: "r = (bs', s2)" by (cases r)
  from t t1 r r1 show ?case by simp
qed

lemma visitFunction_returns:
  assumes "list_all storesFollowed (blocks (fs ! fi))"
  shows "\<exists>r. visitFunction pc md fs fi ch = Inr r"
proof -
  from visitBlocks_returns [OF assms, of pc md "(fs, ch)"] obtain t where
    t: "visitBlocks pc md (blocks (fs ! fi)) (fs, ch) = Inr t" by blast
  obtain bs' fs' ch' where "t = (bs', fs', ch')" by (cases t)
  with t show ?thesis by (simp add: visitFunction_def)
qed

lemma visitFunction_other:
  assumes v: "visitFunction pc md fs fi ch = Inr (fs', ch')" and lt: "fi < length fs"
    and j: "j < length fs'" "j \<noteq> fi"
  shows "if j < length fs
         then fs' ! j = fs ! j \<or>
              (blocks (fs ! j) = [] \<and> fs' ! j = (fs ! j)\<lparr>blocks := [[RetVoid]]\<rparr>)
         else blocks (fs' ! j) = [[RetVoid]]"
proof -
  from v obtain bs1 fs1 where
    a: "visitBlocks pc md (blocks (fs ! fi)) (fs, ch) = Inr (bs1, fs1, ch')" and
    b: "fs' = fs1[fi := (fs1 ! fi)\<lparr>blocks := bs1\<rparr>]"
    by (auto simp: visitFunction_def split: sum.splits prod.splits)
  from visitBlocks_evolves [OF a] have e: "evolves fs fs1" .
  from b j have x: "fs' ! j = fs1 ! j" and jl: "j < length fs1" by simp_all
  from e jl show ?thesis unfolding x by (simp add: evolves_def)
qed

lemma visitFunctions_returns:
  "(\<And>j. fi \<le> j \<Longrightarrow> j < length fs \<Longrightarrow> list_all storesFollowed (blocks (fs ! j))) \<Longrightarrow>
   \<exists>r. visitFunctions pc md fs fi ch = Inr r"
proof (induction pc md fs fi ch rule: visitFunctions.induct)
  case (1 pc md fs fi ch)
  show ?case
  proof (cases "fi < length fs")
    case True
    with "1.prems" have "list_all storesFollowed (blocks (fs ! fi))" by simp
    from visitFunction_returns [OF this, of pc md ch] obtain t where
      t: "visitFunction pc md fs fi ch = Inr t" by blast
    obtain fs1 ch1 where "t = (fs1, ch1)" by (cases t)
    with t have v: "visitFunction pc md fs fi ch = Inr (fs1, ch1)" by simp
    show ?thesis
    proof (cases "Suc fi < length fs")
      case t: True
      have "\<exists>r. visitFunctions pc md fs1 (Suc fi) ch1 = Inr r"
      proof (rule "1.IH" [OF True v refl t])
        fix j assume j: "Suc fi \<le> j" "j < length fs1"
        then have "j \<noteq> fi" by simp
        from visitFunction_other [OF v True j(2) this] "1.prems" [of j] j(1)
        show "list_all storesFollowed (blocks (fs1 ! j))"
          by (auto simp: isStore_def split: if_splits)
      qed
      with True v t show ?thesis by (subst visitFunctions.simps) simp
    next
      case False
      with True v show ?thesis by (subst visitFunctions.simps) simp
    qed
  next
    case False
    then show ?thesis by (subst visitFunctions.simps) simp
  qed
qed

lemma visitInsts_aborts:
  assumes "stubName pc md i = Some n"
  shows "\<exists>e. visitInsts pc md (pre @ [i]) s = Inl e"
proof (induction pre arbitrary: s)
  case Nil
  obtain fs ch where s: "s = (fs, ch)" by (cases s)
  show ?case by (simp add: s visitInst_stub [OF assms] succeededByCall_def)
next
  case (Cons x pre)
  show ?case
  proof (cases "visitInst pc md x (pre @ [i]) s")
    case (Inl e)
    then show ?thesis by simp
  next
    case (Inr r)
    obtain ins s1 where r: "r = (ins, s1)" by (cases r)
    from Cons [of s1] obtain e where "visitInsts pc md (pre @ [i]) s1 = Inl e" by blast
    with Inr r show ?thesis by simp
  qed
qed

lemma visitBlocks_aborts:
  assumes "stubName pc md i = Some n"
  shows "pre @ [i] \<in> set bs \<Longrightarrow> \<exists>e. visitBlocks pc md bs s = Inl e"
proof (induction bs arbitrary: s)
  case Nil
  then show ?case by simp
next
  case (Cons b bs)
  show ?case
  proof (cases "visitInsts pc md b s")
    case (Inl e)
    then show ?thesis by simp
  next
    case (Inr r)
    obtain b' s1 where r: "r = (b', s1)" by (cases r)
    from Inr visitInsts_aborts [OF assms, of pre s] have "b \<noteq> pre @ [i]" by auto
    with Cons.prems have "pre @ [i] \<in> set bs" by simp
    from Cons.IH [OF this, of s1] obtain e where "visitBlocks pc md bs s1 = Inl e" by blast
    with Inr r show ?thesis by simp
  qed
qed

lemma visitFunctions_aborts:
  "stubName pc md i = Some n \<Longrightarrow> k \<le> fi \<Longrightarrow> fi < length fs \<Longrightarrow>
   pre @ [i] \<in> set (blocks (fs ! fi)) \<Longrightarrow> \<exists>e. visitFunctions pc md fs k ch = Inl e"
proof (induction pc md fs k ch rule: visitFunctions.induct)
  case (1 pc md fs k ch)
  note st = "1.prems"(1)
  from "1.prems" have kl: "k < length fs" by simp
  show ?case
  proof (cases "visitFunction pc md fs k ch")
    case (Inl e)
    with kl show ?thesis by (subst visitFunctions.simps) simp
  next
    case (Inr r)
    obtain fs1 ch1 where r: "r = (fs1, ch1)" by (cases r)
    have ne: "k \<noteq> fi"
    proof
      assume "k = fi"
      with visitBlocks_aborts [OF st "1.prems"(4), of "(fs, ch)"] Inr show False
        by (auto simp: visitFunction_def)
    qed
    with "1.prems" have t: "Suc k < length fs" and le: "Suc k \<le> fi" by simp_all
    from visitFunction_length [OF Inr [unfolded r]] "1.prems"(3) have l1: "fi < length fs1"
      by simp
    from visitFunction_other [OF Inr [unfolded r] kl l1] ne "1.prems"(3,4)
    have "fs1 ! fi = fs ! fi" by auto
    with "1.prems"(4) have "pre @ [i] \<in> set (blocks (fs1 ! fi))" by simp
    from "1.IH" [OF kl Inr [unfolded r] refl t st le l1 this]
    obtain e where "visitFunctions pc md fs1 (Suc k) ch1 = Inl e" by blast
    with kl Inr r t show ?thesis by (subst visitFunctions.simps) simp
  qed
qed

lemma stubName_qualifying:
  "isPCReg p \<Longrightarrow> getMetadata md l = Some (n, 0) \<Longrightarrow> n \<noteq> [] \<Longrightarrow>
   stubName isPCReg md (Store (LoadRes l) p) = Some (''dl.'' @ n)"
  by (simp add: stubName_def getRelocName_def)

section \<open>The calls that are synthesized\<close>









section \<open>Tags are kept\<close>

text \<open>
  \<open>keepsTags md md'\<close>: every tag of \<open>md\<close> is a tag of \<open>md'\<close>, on the same load and with
  the same pair, and no load has two tags in \<open>md'\<close> unless one had in \<open>md\<close>.
\<close>

definition keepsTags :: "metadata \<Rightarrow> metadata \<Rightarrow> bool" where
  "keepsTags md md' =
     ((\<forall>k t. getMetadata md k = Some t \<longrightarrow> getMetadata md' k = Some t) \<and>
      (distinct (map fst md) \<longrightarrow> distinct (map fst md')))"

lemma keepsTags_refl: "keepsTags md md"
  by (simp add: keepsTags_def)

lemma keepsTags_trans: "keepsTags md md1 \<Longrightarrow> keepsTags md1 md2 \<Longrightarrow> keepsTags md md2"
  by (simp add: keepsTags_def)

lemma getMetadata_setMetadata:
  "getMetadata (setMetadata l t md) k = (if k = l then Some t else getMetadata md k)"
  by (induction md) (auto simp: getMetadata_def)

lemma keys_setMetadata: "set (map fst (setMetadata l t md)) = insert l (set (map fst md))"
proof (induction md)
  case Nil
  then show ?case by simp
next
  case (Cons e md)
  obtain k u where e: "e = (k, u)" by (cases e)
  from Cons show ?case by (simp add: e insert_commute)
qed

lemma distinct_setMetadata:
  "distinct (map fst md) \<Longrightarrow> distinct (map fst (setMetadata l t md))"
proof (induction md)
  case Nil
  then show ?case by simp
next
  case (Cons e md)
  obtain k u where e: "e = (k, u)" by (cases e)
  show ?case
  proof (cases "k = l")
    case True
    with Cons.prems show ?thesis by (simp add: e)
  next
    case False
    from Cons have "distinct (map fst (setMetadata l t md))" by simp
    moreover from Cons.prems False have "k \<notin> set (map fst (setMetadata l t md))"
      unfolding keys_setMetadata by (simp add: e)
    ultimately show ?thesis using False by (simp add: e)
  qed
qed

lemma setMetadata_keepsTags:
  "getMetadata md l = None \<Longrightarrow> keepsTags md (setMetadata l t md)"
  by (auto simp: keepsTags_def getMetadata_setMetadata distinct_setMetadata)

lemma locateScan_keepsTags: "locateScan relocs c l md = (md', r) \<Longrightarrow> keepsTags md md'"
  by (induction relocs) (auto simp: keepsTags_refl setMetadata_keepsTags split: if_splits)

lemma locateInst_keepsTags: "locateInst relocs i md = (md', r) \<Longrightarrow> keepsTags md md'"
  by (auto simp: locateInst_def locateHandleLoad_def keepsTags_refl
      split: instr.splits val.splits dest: locateScan_keepsTags)

lemma locateInsts_keepsTags: "locateInsts relocs is (md, res) = (md', r) \<Longrightarrow> keepsTags md md'"
proof (induction "is" arbitrary: md res)
  case Nil
  then show ?case by (simp add: keepsTags_refl)
next
  case (Cons i rest)
  then show ?case
    by (auto split: prod.splits dest: locateInst_keepsTags intro: keepsTags_trans)
qed

lemma translateScan_keepsTags:
  "translateScan pc relocs c l fi (fs, md) = ((fs', md'), r) \<Longrightarrow> keepsTags md md'"
  by (induction relocs)
    (auto simp: keepsTags_refl setMetadata_keepsTags Let_def split: if_splits)

lemma translateInst_keepsTags:
  "translateInst pc relocs fi i (fs, md) = ((fs', md'), r) \<Longrightarrow> keepsTags md md'"
  by (auto simp: translateInst_def translateHandleLoad_def keepsTags_refl
      split: instr.splits val.splits dest: translateScan_keepsTags)

lemma translateInsts_keepsTags:
  "translateInsts pc relocs fi is ((fs, md), res) = ((fs', md'), r) \<Longrightarrow> keepsTags md md'"
proof (induction "is" arbitrary: fs md res)
  case Nil
  then show ?case by (simp add: keepsTags_refl)
next
  case (Cons i rest)
  then show ?case
    by (auto split: prod.splits dest: translateInst_keepsTags intro: keepsTags_trans)
qed

lemma locateRunOnBasicBlock_keepsTags:
  "keepsTags (relocMD M) (relocMD (fst (locateRunOnBasicBlock relocs M fi bi)))"
  by (auto simp: locateRunOnBasicBlock_def split: prod.splits dest: locateInsts_keepsTags)

lemma translateRunOnBasicBlock_keepsTags:
  "keepsTags (relocMD M) (relocMD (fst (translateRunOnBasicBlock pc relocs M fi bi)))"
  by (auto simp: translateRunOnBasicBlock_def split: prod.splits dest: translateInsts_keepsTags)

lemma runOnModule_relocMD: "runOnModule pc M = Inr (M', c) \<Longrightarrow> relocMD M' = relocMD M"
  by (auto simp: runOnModule_def split: sum.splits prod.splits)

section \<open>The fused variant, run again\<close>

definition isLoad :: "instr \<Rightarrow> bool" where
  "isLoad i = (case i of Load _ _ \<Rightarrow> True | _ \<Rightarrow> False)"

text \<open>
  \<open>passedOver relocs md i\<close>: \<open>handleLoad\<close> does nothing on \<open>i\<close>, which is no load of a
  constant address, or one that no relocation has, or a load already tagged.
\<close>

definition passedOver :: "RelocationInfo list \<Rightarrow> metadata \<Rightarrow> instr \<Rightarrow> bool" where
  "passedOver relocs md i =
     (case i of
        Load l (IntToPtrConst c) \<Rightarrow>
          getMetadata md l \<noteq> None \<or> list_all (\<lambda>r. \<not> equalsInt c (Address r)) relocs
      | _ \<Rightarrow> True)"

definition sameLoads :: "nat \<Rightarrow> func list \<Rightarrow> func list \<Rightarrow> bool" where
  "sameLoads fi fs fs' =
     (fi < length fs' \<and>
      map (filter isLoad) (blocks (fs' ! fi)) = map (filter isLoad) (blocks (fs ! fi)))"

lemma translateScan_tagged:
  "getMetadata md l \<noteq> None \<Longrightarrow> translateScan pc relocs c l fi (fs, md) = ((fs, md), False)"
  by (induction relocs) auto

lemma translateScan_unmatched:
  "list_all (\<lambda>r. \<not> equalsInt c (Address r)) relocs \<Longrightarrow>
   translateScan pc relocs c l fi (fs, md) = ((fs, md), False)"
  by (induction relocs) auto

lemma translateScan_tags:
  "translateScan pc relocs c l fi (fs, md) = ((fs', md'), r) \<Longrightarrow>
   getMetadata md' l \<noteq> None \<or> list_all (\<lambda>r. \<not> equalsInt c (Address r)) relocs"
proof (cases "getMetadata md l = None")
  case False
  assume "translateScan pc relocs c l fi (fs, md) = ((fs', md'), r)"
  with False show ?thesis by (simp add: translateScan_tagged)
next
  case True
  assume "translateScan pc relocs c l fi (fs, md) = ((fs', md'), r)"
  with True show ?thesis
    by (induction relocs) (auto simp: Let_def getMetadata_setMetadata split: if_splits)
qed

lemma passedOver_translateInst:
  "passedOver relocs md i \<Longrightarrow> translateInst pc relocs fi i (fs, md) = ((fs, md), False)"
  by (auto simp: passedOver_def translateInst_def translateHandleLoad_def translateScan_tagged
      translateScan_unmatched split: instr.splits val.splits)

lemma translateInst_passedOver:
  "translateInst pc relocs fi i (fs, md) = ((fs', md'), r) \<Longrightarrow> passedOver relocs md' i"
  by (auto simp: passedOver_def translateInst_def translateHandleLoad_def
      split: instr.splits val.splits dest: translateScan_tags)

lemma passedOver_keepsTags:
  "keepsTags md md' \<Longrightarrow> passedOver relocs md i \<Longrightarrow> passedOver relocs md' i"
  by (auto simp: passedOver_def keepsTags_def split: instr.splits val.splits)

lemma translateInsts_passedOver:
  "translateInsts pc relocs fi is ((fs, md), res) = ((fs', md'), r) \<Longrightarrow>
   i \<in> set is \<Longrightarrow> passedOver relocs md' i"
proof (induction "is" arbitrary: fs md res)
  case Nil
  then show ?case by simp
next
  case (Cons x rest)
  obtain fs1 md1 c where a: "translateInst pc relocs fi x (fs, md) = ((fs1, md1), c)"
    by (metis surj_pair)
  with Cons.prems(1) have b: "translateInsts pc relocs fi rest ((fs1, md1), res \<or> c) = ((fs', md'), r)"
    by simp
  show ?case
  proof (cases "i = x")
    case True
    from translateInst_passedOver [OF a] translateInsts_keepsTags [OF b] True show ?thesis
      by (auto intro: passedOver_keepsTags)
  next
    case False
    with Cons.prems(2) have "i \<in> set rest" by simp
    from Cons.IH [OF b this] show ?thesis .
  qed
qed

lemma passedOver_translateInsts:
  "(\<And>i. i \<in> set is \<Longrightarrow> passedOver relocs md i) \<Longrightarrow>
   translateInsts pc relocs fi is ((fs, md), res) = ((fs, md), res)"
  by (induction "is") (simp_all add: passedOver_translateInst)

lemma handlePCStore_grows:
  "handlePCStore md v fs = (ins, fs') \<Longrightarrow>
   filter isLoad ins = [] \<and> (\<exists>xs. fs' = fs @ xs)"
  by (auto simp: handlePCStore_def translateBuildCall_def getOrInsertFunction_def isLoad_def
      split: val.splits option.splits prod.splits if_splits)

lemma usersInst_grows:
  "usersInst pc md l i fs = (ins, fs') \<Longrightarrow>
   filter isLoad ins = [] \<and> (\<exists>xs. fs' = fs @ xs)"
  by (cases i) (auto simp: usersInst_def split: if_splits dest: handlePCStore_grows)

lemma usersInsts_grows:
  "usersInsts pc md l is fs = (is', fs') \<Longrightarrow>
   filter isLoad is' = filter isLoad is \<and> (\<exists>xs. fs' = fs @ xs)"
proof (induction "is" arbitrary: fs is')
  case Nil
  then show ?case by simp
next
  case (Cons i rest)
  from Cons.prems obtain ins fs1 rest' where
    a: "usersInst pc md l i fs = (ins, fs1)" and
    b: "usersInsts pc md l rest fs1 = (rest', fs')" and
    c: "is' = ins @ i # rest'"
    by (auto split: prod.splits)
  from usersInst_grows [OF a] Cons.IH [OF b] c show ?case by auto
qed

lemma usersBlocks_grows:
  "usersBlocks pc md l bs fs = (bs', fs') \<Longrightarrow>
   map (filter isLoad) bs' = map (filter isLoad) bs \<and> (\<exists>xs. fs' = fs @ xs)"
proof (induction bs arbitrary: fs bs')
  case Nil
  then show ?case by simp
next
  case (Cons b bs)
  from Cons.prems obtain b' fs1 bs1 where
    a: "usersInsts pc md l b fs = (b', fs1)" and
    b: "usersBlocks pc md l bs fs1 = (bs1, fs')" and
    c: "bs' = b' # bs1"
    by (auto split: prod.splits)
  from usersInsts_grows [OF a] Cons.IH [OF b] c show ?case by auto
qed

lemma handleUsers_sameLoads:
  "fi < length fs \<Longrightarrow> sameLoads fi fs (handleUsers pc md l fi fs)"
  by (auto simp: handleUsers_def sameLoads_def split: prod.splits dest!: usersBlocks_grows)

lemma sameLoads_refl: "fi < length fs \<Longrightarrow> sameLoads fi fs fs"
  by (simp add: sameLoads_def)

lemma sameLoads_trans: "sameLoads fi fs fs1 \<Longrightarrow> sameLoads fi fs1 fs2 \<Longrightarrow> sameLoads fi fs fs2"
  by (simp add: sameLoads_def)

lemma translateScan_sameLoads:
  "translateScan pc relocs c l fi (fs, md) = ((fs', md'), r) \<Longrightarrow> fi < length fs \<Longrightarrow>
   sameLoads fi fs fs'"
  by (induction relocs)
    (auto simp: Let_def sameLoads_refl handleUsers_sameLoads split: if_splits)

lemma translateInst_sameLoads:
  "translateInst pc relocs fi i (fs, md) = ((fs', md'), r) \<Longrightarrow> fi < length fs \<Longrightarrow>
   sameLoads fi fs fs'"
  by (auto simp: translateInst_def translateHandleLoad_def sameLoads_refl
      split: instr.splits val.splits dest: translateScan_sameLoads)

lemma translateInsts_sameLoads:
  "translateInsts pc relocs fi is ((fs, md), res) = ((fs', md'), r) \<Longrightarrow> fi < length fs \<Longrightarrow>
   sameLoads fi fs fs'"
proof (induction "is" arbitrary: fs md res)
  case Nil
  then show ?case by (simp add: sameLoads_refl)
next
  case (Cons x rest)
  obtain fs1 md1 c where a: "translateInst pc relocs fi x (fs, md) = ((fs1, md1), c)"
    by (metis surj_pair)
  with Cons.prems(1) have b: "translateInsts pc relocs fi rest ((fs1, md1), res \<or> c) = ((fs', md'), r)"
    by simp
  from translateInst_sameLoads [OF a Cons.prems(2)] have s: "sameLoads fi fs fs1" .
  then have "fi < length fs1" by (simp add: sameLoads_def)
  from sameLoads_trans [OF s Cons.IH [OF b this]] show ?case .
qed

lemma passedOver_not_load: "\<not> isLoad i \<Longrightarrow> passedOver relocs md i"
  by (auto simp: passedOver_def isLoad_def split: instr.splits)

section \<open>Claims\<close>

text \<open>
  C1. Running the module-wide rewrite of the split variant on the module it has
  produced should give that module again. It does when the functions named \<open>dl.\<close>\<dots>
  have the function type of the stub (\<open>rewrite_again_stubsAgree\<close>). It does not on a
  module that already has a function \<open>dl.printf\<close> of another function type:
  \<open>getOrInsertFunction\<close> hands back a cast, the call inserted has no called function,
  \<open>succeededByCall\<close> does not recognise it, and the second run inserts a second call
  after the same store.
\<close>

theorem C1_second_run_inserts_again:
  "runOnModule pcOracle variadicStubModule = Inr (variadicStubModuleOnce, True) \<and>
   runOnModule pcOracle variadicStubModuleOnce = Inr (variadicStubModuleTwice, True) \<and>
   blockAt variadicStubModuleOnce 0 0 =
     [Load 0 (IntToPtrConst 0x4020), Store (LoadRes 0) (GlobalVar ''pc''),
      Call (Cast ''dl.printf''), RetVoid] \<and>
   blockAt variadicStubModuleTwice 0 0 =
     [Load 0 (IntToPtrConst 0x4020), Store (LoadRes 0) (GlobalVar ''pc''),
      Call (Cast ''dl.printf''), Call (Cast ''dl.printf''), RetVoid] \<and>
   variadicStubModuleTwice \<noteq> variadicStubModuleOnce"
proof (intro conjI)
  show "runOnModule pcOracle variadicStubModule = Inr (variadicStubModuleOnce, True)"
    by (simp add: run_defs variadicStubModule_def variadicStubModuleOnce_def pcOracle_def)
  show "runOnModule pcOracle variadicStubModuleOnce = Inr (variadicStubModuleTwice, True)"
    by (simp add: run_defs variadicStubModuleOnce_def variadicStubModuleTwice_def pcOracle_def)
  show "blockAt variadicStubModuleOnce 0 0 =
     [Load 0 (IntToPtrConst 0x4020), Store (LoadRes 0) (GlobalVar ''pc''),
      Call (Cast ''dl.printf''), RetVoid]"
    by (simp add: blockAt_def variadicStubModuleOnce_def)
  show "blockAt variadicStubModuleTwice 0 0 =
     [Load 0 (IntToPtrConst 0x4020), Store (LoadRes 0) (GlobalVar ''pc''),
      Call (Cast ''dl.printf''), Call (Cast ''dl.printf''), RetVoid]"
    by (simp add: blockAt_def variadicStubModuleTwice_def)
  show "variadicStubModuleTwice \<noteq> variadicStubModuleOnce"
    by (simp add: variadicStubModuleOnce_def variadicStubModuleTwice_def)
qed

text \<open>
  C2. For a store whose value is a load carrying a relocation tag with a nonzero
  addend, neither variant synthesizes a call: \<open>visitStoreInst\<close> of the split variant
  inserts nothing and leaves the function list and \<open>MadeChange\<close> as they are, its walk
  keeps the store directly in front of what follows it, \<open>handlePCStore\<close> of the fused
  variant inserts nothing and declares nothing, and its loop over the users keeps the
  store as it is.
\<close>

theorem C2_nonzero_addend_gate:
  assumes "getMetadata md l = Some (n, a)" and "a \<noteq> 0"
  shows "visitStoreInst isPCReg md (LoadRes l) p rest (fs, ch) = Inr ([], fs, ch) \<and>
         visitInsts isPCReg md (Store (LoadRes l) p # rest) s =
           (case visitInsts isPCReg md rest s of
              Inl e \<Rightarrow> Inl e
            | Inr (rest', s') \<Rightarrow> Inr (Store (LoadRes l) p # rest', s')) \<and>
         handlePCStore md (LoadRes l) fs = ([], fs) \<and>
         usersInsts isPCReg md k (Store (LoadRes l) p # rest) fs =
           (case usersInsts isPCReg md k rest fs of
              (rest', fs') \<Rightarrow> (Store (LoadRes l) p # rest', fs'))"
proof (intro conjI)
  from assms have g: "getRelocName md l True = []"
    by (simp add: getRelocName_def)
  show v: "visitStoreInst isPCReg md (LoadRes l) p rest (fs, ch) = Inr ([], fs, ch)"
    by (simp add: visitStoreInst_def g)
  have "visitStoreInst isPCReg md (LoadRes l) p rest s = Inr ([], s)"
    by (cases s) (simp add: visitStoreInst_def g)
  then show "visitInsts isPCReg md (Store (LoadRes l) p # rest) s =
           (case visitInsts isPCReg md rest s of
              Inl e \<Rightarrow> Inl e
            | Inr (rest', s') \<Rightarrow> Inr (Store (LoadRes l) p # rest', s'))"
    by (simp add: visitInst_def split: sum.splits)
  show h: "handlePCStore md (LoadRes l) fs = ([], fs)"
    using assms by (simp add: handlePCStore_def)
  have "usersInst isPCReg md k (Store (LoadRes l) p) fs = ([], fs)"
    using assms by (simp add: usersInst_def handlePCStore_def)
  then show "usersInsts isPCReg md k (Store (LoadRes l) p # rest) fs =
           (case usersInsts isPCReg md k rest fs of
              (rest', fs') \<Rightarrow> (Store (LoadRes l) p # rest', fs'))"
    by simp
qed

theorem C2_nonzero_addend_gate_witness:
  "getMetadata dataSymMD 0 = Some (''data_sym'', 8) \<and> (8 :: 64 word) \<noteq> 0 \<and>
   visitStoreInst pcOracle dataSymMD (LoadRes 0) (GlobalVar ''pc'') [RetVoid] ([], False) =
     Inr ([], [], False) \<and>
   visitInsts pcOracle dataSymMD [Store (LoadRes 0) (GlobalVar ''pc''), RetVoid] ([], False) =
     Inr ([Store (LoadRes 0) (GlobalVar ''pc''), RetVoid], [], False) \<and>
   handlePCStore dataSymMD (LoadRes 0) [] = ([], []) \<and>
   usersInsts pcOracle dataSymMD 0 [Store (LoadRes 0) (GlobalVar ''pc''), RetVoid] [] =
     ([Store (LoadRes 0) (GlobalVar ''pc''), RetVoid], [])"
proof -
  have h1: "getMetadata dataSymMD 0 = Some (''data_sym'', 8)"
    by (simp add: dataSymMD_def getMetadata_def)
  have h2: "(8 :: 64 word) \<noteq> 0" by simp
  from C2_nonzero_addend_gate [OF h1 h2, of pcOracle "GlobalVar ''pc''" "[RetVoid]" "[]" False
      "([], False)" 0]
  show ?thesis using h1 h2 by (simp add: visitInst_def usersInst_def)
qed




text \<open>
  C4, as stated, fails: on the untagged module of the scenario the module-wide rewrite
  alone changes nothing, while the locating pass followed by the rewrite inserts the call
  of \<open>dl.printf\<close>.
\<close>

theorem C4_counterexample:
  "relocMD printfModule = [] \<and>
   runOnModule pcOracle printfModule = Inr (printfModule, False) \<and>
   runOnModule pcOracle (fst (locateRunOnBasicBlock printfRelocs printfModule 0 0)) =
     Inr (printfModuleRewritten, True) \<and>
   functionList printfModuleRewritten \<noteq> functionList printfModule"
  by (simp add: locate_printfModule rewrite_tagged_printfModule rewrite_untagged_printfModule)
    (simp add: printfModule_def printfModuleRewritten_def)

text \<open>
  C4, amended. The module-wide rewrite computes no relocation tag: a run leaves the tags
  of the module exactly as it found them. On a module without tags it returns the module
  as it is and reports no change, so the stores that the locating pass followed by the
  rewrite rewrites are not rewritten by the rewrite alone.
\<close>

theorem C4_rewrite_computes_no_tag:
  "(relocMD M = [] \<longrightarrow> runOnModule isPCReg M = Inr (M, False)) \<and>
   (runOnModule isPCReg N = Inr (N', c) \<longrightarrow> relocMD N' = relocMD N)"
proof (intro conjI impI)
  assume m: "relocMD M = []"
  have "stubName isPCReg [] i = None" for i
    by (simp add: stubName_def getRelocName_def getMetadata_def split: instr.splits val.splits)
  then have "settled isPCReg [] b" for b
    by (induction b) simp_all
  then have "settledFn isPCReg [] f" for f
    by (simp add: settledFn_def list_all_iff)
  then have "visitFunctions isPCReg [] (functionList M) 0 False = Inr (functionList M, False)"
    by (intro settled_visitFunctions)
  with m show "runOnModule isPCReg M = Inr (M, False)" by (simp add: runOnModule_def)
next
  assume "runOnModule isPCReg N = Inr (N', c)"
  then show "relocMD N' = relocMD N" by (rule runOnModule_relocMD)
qed

theorem C4_rewrite_computes_no_tag_witness:
  "relocMD printfModule = [] \<and> runOnModule pcOracle printfModule = Inr (printfModule, False) \<and>
   runOnModule pcOracle (printfModule\<lparr>relocMD := [(0, (''printf'', 0))]\<rparr>) =
     Inr (printfModuleRewritten, True) \<and>
   relocMD printfModuleRewritten = relocMD (printfModule\<lparr>relocMD := [(0, (''printf'', 0))]\<rparr>)"
proof -
  have h: "relocMD printfModule = []" by (simp add: printfModule_def)
  from C4_rewrite_computes_no_tag [of printfModule pcOracle
      "printfModule\<lparr>relocMD := [(0, (''printf'', 0))]\<rparr>" printfModuleRewritten True]
    h rewrite_tagged_printfModule
  show ?thesis by simp
qed

text \<open>
  C5. With the relocation table \<open>[{address 0x4020, symbol printf, addend 0}]\<close> and a
  block holding \<open>r = load(inttoptr(0x4020)); store(PC, r)\<close> before its terminator, the
  locating pass followed by the module-wide rewrite leaves \<open>store(PC, r)\<close> immediately
  followed by a call of \<open>dl.printf\<close>, and the load \<open>r\<close> carries the tag
  \<open>(printf, 0)\<close>.
\<close>

theorem C5_end_to_end:
  "runOnModule pcOracle (fst (locateRunOnBasicBlock printfRelocs printfModule 0 0)) =
     Inr (printfModuleRewritten, True) \<and>
   blockAt printfModuleRewritten 0 0 =
     [Load 0 (IntToPtrConst 0x4020), Store (LoadRes 0) (GlobalVar ''pc''),
      Call (Fn ''dl.printf''), RetVoid] \<and>
   getMetadata (relocMD printfModuleRewritten) 0 = Some (''printf'', 0)"
proof (intro conjI)
  show "runOnModule pcOracle (fst (locateRunOnBasicBlock printfRelocs printfModule 0 0)) =
     Inr (printfModuleRewritten, True)"
    by (simp add: locate_printfModule rewrite_tagged_printfModule)
  show "blockAt printfModuleRewritten 0 0 =
     [Load 0 (IntToPtrConst 0x4020), Store (LoadRes 0) (GlobalVar ''pc''),
      Call (Fn ''dl.printf''), RetVoid]"
    by (simp add: blockAt_def printfModuleRewritten_def)
  show "getMetadata (relocMD printfModuleRewritten) 0 = Some (''printf'', 0)"
    by (simp add: getMetadata_def printfModuleRewritten_def)
qed

text \<open>
  C6. A relocation tag, once attached to a load, is neither changed nor removed by a
  later run of the locating pass, of the fused variant or of the split variant: the load
  keeps the pair of the first assignment. The two block passes attach a tag only to a
  load that has none, so no load gets a second tag; the module-wide rewrite leaves the
  tags as they are.
\<close>

theorem C6_tag_write_once:
  assumes "getMetadata (relocMD M) l = Some t"
  shows "getMetadata (relocMD (fst (locateRunOnBasicBlock relocs M fi bi))) l = Some t \<and>
         getMetadata (relocMD (fst (translateRunOnBasicBlock isPCReg relocs M fi bi))) l = Some t \<and>
         (\<forall>M' c. runOnModule isPCReg M = Inr (M', c) \<longrightarrow> relocMD M' = relocMD M) \<and>
         (distinct (map fst (relocMD M)) \<longrightarrow>
            distinct (map fst (relocMD (fst (locateRunOnBasicBlock relocs M fi bi)))) \<and>
            distinct (map fst (relocMD (fst (translateRunOnBasicBlock isPCReg relocs M fi bi)))))"
proof -
  let ?L = "relocMD (fst (locateRunOnBasicBlock relocs M fi bi))"
  let ?T = "relocMD (fst (translateRunOnBasicBlock isPCReg relocs M fi bi))"
  have a: "keepsTags (relocMD M) ?L" by (rule locateRunOnBasicBlock_keepsTags)
  have b: "keepsTags (relocMD M) ?T" by (rule translateRunOnBasicBlock_keepsTags)
  from a assms have 1: "getMetadata ?L l = Some t" unfolding keepsTags_def by blast
  from b assms have 2: "getMetadata ?T l = Some t" unfolding keepsTags_def by blast
  have 3: "\<forall>M' c. runOnModule isPCReg M = Inr (M', c) \<longrightarrow> relocMD M' = relocMD M"
    using runOnModule_relocMD by blast
  from a b have 4: "distinct (map fst (relocMD M)) \<longrightarrow> distinct (map fst ?L) \<and> distinct (map fst ?T)"
    unfolding keepsTags_def by blast
  from 1 2 3 4 show ?thesis by blast
qed

theorem C6_tag_write_once_witness:
  "getMetadata (relocMD firstTagModule) 0 = Some (''first'', 7) \<and>
   distinct (map fst (relocMD firstTagModule)) \<and>
   locateRunOnBasicBlock printfRelocs firstTagModule 0 0 = (firstTagModule, False) \<and>
   translateRunOnBasicBlock pcOracle printfRelocs firstTagModule 0 0 = (firstTagModule, False) \<and>
   getMetadata (relocMD (fst (locateRunOnBasicBlock printfRelocs firstTagModule 0 0))) 0 =
     Some (''first'', 7) \<and>
   getMetadata (relocMD (fst (translateRunOnBasicBlock pcOracle printfRelocs firstTagModule 0 0))) 0 =
     Some (''first'', 7)"
proof -
  have h: "getMetadata (relocMD firstTagModule) 0 = Some (''first'', 7)"
    by (simp add: firstTagModule_def getMetadata_def)
  have d: "distinct (map fst (relocMD firstTagModule))"
    by (simp add: firstTagModule_def)
  have a: "locateRunOnBasicBlock printfRelocs firstTagModule 0 0 = (firstTagModule, False)"
    by (simp add: run_defs firstTagModule_def printfModule_def printfRelocs_def)
  have b: "translateRunOnBasicBlock pcOracle printfRelocs firstTagModule 0 0 = (firstTagModule, False)"
    by (simp add: translate_defs firstTagModule_def printfModule_def printfRelocs_def)
  from C6_tag_write_once [OF h, of printfRelocs 0 0 pcOracle] h d a b show ?thesis
    by simp
qed



text \<open>
  C8. If a store that the split rewrite acts on (a store to the program counter of a
  load tagged with a non-empty name and a zero addend) is the last instruction of its
  block, the rewrite of the module aborts: it returns no module. If every store of every
  block has a following instruction, the rewrite returns. \<open>buildCall\<close> itself fails its
  assertion when nothing follows the store.
\<close>

theorem C8_no_insertion_point:
  "(fi < length (functionList M) \<and>
    pre @ [Store (LoadRes l) p] \<in> set (blocks (functionList M ! fi)) \<and>
    isPCReg p \<and> getMetadata (relocMD M) l = Some (n, 0) \<and> n \<noteq> [] \<longrightarrow>
      (\<exists>e. runOnModule isPCReg M = Inl e)) \<and>
   ((\<forall>f \<in> set (functionList M). \<forall>b \<in> set (blocks f). storesFollowed b) \<longrightarrow>
      (\<exists>M' c. runOnModule isPCReg M = Inr (M', c))) \<and>
   buildCall fs [] name = Inl NoInsertionPoint"
proof (intro conjI impI; (elim conjE)?)
  assume a: "fi < length (functionList M)"
    "pre @ [Store (LoadRes l) p] \<in> set (blocks (functionList M ! fi))"
    "isPCReg p" "getMetadata (relocMD M) l = Some (n, 0)" "n \<noteq> []"
  from a(3,4,5)
  have "stubName isPCReg (relocMD M) (Store (LoadRes l) p) = Some (''dl.'' @ n)"
    by (rule stubName_qualifying)
  from visitFunctions_aborts [OF this _ a(1,2), of 0 False] obtain e where
    "visitFunctions isPCReg (relocMD M) (functionList M) 0 False = Inl e" by auto
  then show "\<exists>e. runOnModule isPCReg M = Inl e" by (simp add: runOnModule_def)
next
  assume "\<forall>f \<in> set (functionList M). \<forall>b \<in> set (blocks f). storesFollowed b"
  then have "list_all storesFollowed (blocks (functionList M ! j))"
    if "j < length (functionList M)" for j
    using that nth_mem [of j "functionList M"] by (auto simp: list_all_iff)
  from visitFunctions_returns [of 0 "functionList M" isPCReg "relocMD M" False, OF this]
  obtain r where r: "visitFunctions isPCReg (relocMD M) (functionList M) 0 False = Inr r"
    by blast
  obtain fs' ch where "r = (fs', ch)" by (cases r)
  with r show "\<exists>M' c. runOnModule isPCReg M = Inr (M', c)" by (simp add: runOnModule_def)
next
  show "buildCall fs [] name = Inl NoInsertionPoint"
    by (simp add: buildCall_def Let_def split: prod.splits)
qed

theorem C8_no_insertion_point_witness:
  "0 < length (functionList unterminatedModule) \<and>
   [Load 0 (IntToPtrConst 0x4020)] @ [Store (LoadRes 0) (GlobalVar ''pc'')]
     \<in> set (blocks (functionList unterminatedModule ! 0)) \<and>
   pcOracle (GlobalVar ''pc'') \<and>
   getMetadata (relocMD unterminatedModule) 0 = Some (''printf'', 0) \<and>
   (\<exists>e. runOnModule pcOracle unterminatedModule = Inl e) \<and>
   list_all (\<lambda>f. list_all storesFollowed (blocks f)) (functionList printfModuleRewritten) \<and>
   (\<exists>M' c. runOnModule pcOracle printfModuleRewritten = Inr (M', c))"
proof -
  have a: "0 < length (functionList unterminatedModule)"
    "[Load 0 (IntToPtrConst 0x4020)] @ [Store (LoadRes 0) (GlobalVar ''pc'')]
       \<in> set (blocks (functionList unterminatedModule ! 0))"
    "pcOracle (GlobalVar ''pc'')"
    "getMetadata (relocMD unterminatedModule) 0 = Some (''printf'', 0)"
    "''printf'' \<noteq> []"
    by (simp_all add: unterminatedModule_def pcOracle_def getMetadata_def)
  have b: "list_all (\<lambda>f. list_all storesFollowed (blocks f)) (functionList printfModuleRewritten)"
    by (simp add: printfModuleRewritten_def isStore_def)
  then have c: "\<forall>f \<in> set (functionList printfModuleRewritten). \<forall>b \<in> set (blocks f). storesFollowed b"
    by (simp add: list_all_iff)
  from C8_no_insertion_point [of 0 unterminatedModule "[Load 0 (IntToPtrConst 0x4020)]" 0
      "GlobalVar ''pc''" pcOracle "''printf''"] a
  have 1: "\<exists>e. runOnModule pcOracle unterminatedModule = Inl e" by blast
  from C8_no_insertion_point [of _ printfModuleRewritten _ _ _ pcOracle] c
  have 2: "\<exists>M' c. runOnModule pcOracle printfModuleRewritten = Inr (M', c)" by blast
  from a b 1 2 show ?thesis by blast
qed

text \<open>
  C9. Annotating a module with the library list \<open>[libc.so.6, libm.so.6]\<close> attaches
  module-level metadata listing exactly those two names, one entry each, in the order of
  the input; nothing else of the module changes.
\<close>

theorem C9_library_order:
  "linkerOptions (addLibraryMetadata [''libc.so.6'', ''libm.so.6''] M) =
     [''libc.so.6'', ''libm.so.6''] \<and>
   length (linkerOptions (addLibraryMetadata [''libc.so.6'', ''libm.so.6''] M)) = 2 \<and>
   functionList (addLibraryMetadata [''libc.so.6'', ''libm.so.6''] M) = functionList M \<and>
   relocMD (addLibraryMetadata [''libc.so.6'', ''libm.so.6''] M) = relocMD M"
  by (simp add: addLibraryMetadata_def)

text \<open>
  C10. A second run of the fused variant over the same block gives the module of the
  first run again and reports no change: every load of the block that the first run
  could tag is tagged after it, and a tagged load is passed over, so no call is
  synthesized again.
\<close>

theorem C10_translate_idempotent:
  assumes run: "translateRunOnBasicBlock isPCReg relocs M fi bi = (M1, c)"
    and valid: "validBlock M fi bi"
  shows "translateRunOnBasicBlock isPCReg relocs M1 fi bi = (M1, False)"
proof -
  let ?B = "blockAt M fi bi"
  from run obtain fs1 md1 where
    t: "translateInsts isPCReg relocs fi ?B ((functionList M, relocMD M), False) = ((fs1, md1), c)"
    and m: "M1 = M\<lparr>functionList := fs1, relocMD := md1\<rparr>"
    by (auto simp: translateRunOnBasicBlock_def split: prod.splits)
  from valid have fi: "fi < length (functionList M)"
    and bi: "bi < length (blocks (functionList M ! fi))"
    by (simp_all add: validBlock_def)
  from translateInsts_sameLoads [OF t fi]
  have s: "map (filter isLoad) (blocks (fs1 ! fi)) = map (filter isLoad) (blocks (functionList M ! fi))"
    by (simp add: sameLoads_def)
  from arg_cong [OF s, of length] bi have bi1: "bi < length (blocks (fs1 ! fi))" by simp
  from arg_cong [OF s, of "\<lambda>xs. xs ! bi"] bi bi1
  have l: "filter isLoad (blocks (fs1 ! fi) ! bi) = filter isLoad ?B"
    by (simp add: blockAt_def)
  have p: "passedOver relocs md1 i" if "i \<in> set (blocks (fs1 ! fi) ! bi)" for i
  proof (cases "isLoad i")
    case True
    with that have "i \<in> set (filter isLoad (blocks (fs1 ! fi) ! bi))" by simp
    with l have "i \<in> set ?B" by simp
    from translateInsts_passedOver [OF t this] show ?thesis .
  next
    case False
    then show ?thesis by (rule passedOver_not_load)
  qed
  have "translateInsts isPCReg relocs fi (blocks (fs1 ! fi) ! bi) ((fs1, md1), False) =
          ((fs1, md1), False)"
    by (rule passedOver_translateInsts) (rule p)
  then show ?thesis by (simp add: translateRunOnBasicBlock_def blockAt_def m)
qed

theorem C10_translate_idempotent_witness:
  "translateRunOnBasicBlock pcOracle printfRelocs printfModule 0 0 =
     (printfModuleTranslated, True) \<and>
   validBlock printfModule 0 0 \<and>
   translateRunOnBasicBlock pcOracle printfRelocs printfModuleTranslated 0 0 =
     (printfModuleTranslated, False)"
proof -
  have v: "validBlock printfModule 0 0"
    by (simp add: validBlock_def printfModule_def)
  from C10_translate_idempotent [OF translate_printfModule v] translate_printfModule v
  show ?thesis by simp
qed

end
